theory Spec2Isabelle
  imports Main "HOL-Library.Word"
begin

unbundle bit_operations_syntax

section \<open>Data model\<close>

text \<open>
  A frame is a contiguous sequence of bytes (\<open>array_view<const uint8_t>\<close>); a raw
  buffer is a byte list together with the size the caller passes for it. Values of type
  \<open>size_t\<close> are natural numbers; where the source subtracts or adds \<open>size_t\<close> values
  that can leave the range, the 64-bit wrap-around is written out.
\<close>

type_synonym byte = "8 word"

definition size_max :: nat where
  "size_max = 2 ^ 64"

definition size_sub :: "nat \<Rightarrow> nat \<Rightarrow> nat" where
  "size_sub a b = (if b \<le> a then a - b else a + size_max - b)"

definition size_add :: "nat \<Rightarrow> nat \<Rightarrow> nat" where
  "size_add a b = (a + b) mod size_max"

definition size_mul :: "nat \<Rightarrow> nat \<Rightarrow> nat" where
  "size_mul a b = (a * b) mod size_max"

text \<open>
  The two exceptions the partitioners throw, \<open>dpp::length_exception\<close> and
  \<open>dpp::logic_exception\<close>. The enumeration \<open>codec\<close> is declared outside the sources at
  hand; the validator names \<open>cd_h264\<close> and \<open>cd_h265\<close>, the other members are the codecs
  with a partitioner.
\<close>

datatype error = length_exception | logic_exception

datatype codec = cd_opus | cd_vp8 | cd_vp9 | cd_h264 | cd_h265 | cd_av1

section \<open>Start-code scanner\<close>

definition kH26XNaluLongStartCode :: "byte list" where
  "kH26XNaluLongStartCode = [0, 0, 0, 1]"

definition kH26XNaluShortStartSequenceSize :: nat where
  "kH26XNaluShortStartSequenceSize = 3"

function FindNextH26XNaluIndex_loop :: "byte list \<Rightarrow> nat \<Rightarrow> nat \<Rightarrow> (nat \<times> nat) option" where
  "FindNextH26XNaluIndex_loop buffer bufferSize i =
     (if i < bufferSize - kH26XNaluShortStartSequenceSize then
        if buffer ! (i + 2) > 1 then
          FindNextH26XNaluIndex_loop buffer bufferSize (i + kH26XNaluShortStartSequenceSize)
        else if buffer ! (i + 2) = 1 then
          if buffer ! (i + 1) = 0 \<and> buffer ! i = 0 then
            let nalUnitStartIndex = i + kH26XNaluShortStartSequenceSize in
            if i \<ge> 1 \<and> buffer ! (i - 1) = 0 then Some (nalUnitStartIndex, 4)
            else Some (nalUnitStartIndex, 3)
          else FindNextH26XNaluIndex_loop buffer bufferSize (i + kH26XNaluShortStartSequenceSize)
        else FindNextH26XNaluIndex_loop buffer bufferSize (i + 1)
      else None)"
  by pat_completeness auto
termination
  by (relation "measure (\<lambda>(buffer, bufferSize, i). bufferSize - i)")
     (auto simp: kH26XNaluShortStartSequenceSize_def)

declare FindNextH26XNaluIndex_loop.simps [simp del]

definition FindNextH26XNaluIndex :: "byte list \<Rightarrow> nat \<Rightarrow> nat \<Rightarrow> (nat \<times> nat) option" where
  "FindNextH26XNaluIndex buffer bufferSize searchStartIndex =
     (if bufferSize < kH26XNaluShortStartSequenceSize then None
      else FindNextH26XNaluIndex_loop buffer bufferSize searchStartIndex)"

text \<open>A marker is the 3-byte sequence 00 00 01 at position \<open>p\<close>; it is reported as a
  4-byte marker when the byte before it is 00.\<close>

definition is_marker :: "byte list \<Rightarrow> nat \<Rightarrow> bool" where
  "is_marker buffer p = (buffer ! p = 0 \<and> buffer ! (p + 1) = 0 \<and> buffer ! (p + 2) = 1)"

definition marker_len :: "byte list \<Rightarrow> nat \<Rightarrow> nat" where
  "marker_len buffer p = (if p \<ge> 1 \<and> buffer ! (p - 1) = 0 then 4 else 3)"

definition marker_result :: "byte list \<Rightarrow> nat \<Rightarrow> nat \<times> nat" where
  "marker_result buffer p = (p + 3, marker_len buffer p)"


section \<open>Calls into the accumulator\<close>

text \<open>
  The partitioners mutate the \<open>outbound_frame_processor\<close> only through
  \<open>add_unencrypted_bytes(ptr, len)\<close> and \<open>add_encrypted_bytes(ptr, len)\<close>. A run of a
  partitioner is modelled by the list of these calls in emission order, paired with how
  the run ends. The pointer argument is either \<open>frame.data() + offset\<close> or the address of
  a buffer that is not the frame (the constant long start code, the rewritten OBU header,
  the LEB128 scratch buffer), kept with its contents.
\<close>

datatype source = frame_bytes nat | local_bytes "byte list"

datatype call = add_unencrypted_bytes source nat | add_encrypted_bytes source nat

text \<open>
  A run returns a boolean, throws one of the two exceptions, or reads a byte outside the
  frame (undefined behaviour in the source, kept as an outcome of its own).
\<close>

datatype outcome = returns bool | throws error | reads_out_of_bounds

fun call_size :: "call \<Rightarrow> nat" where
  "call_size (add_unencrypted_bytes src len) = len"
| "call_size (add_encrypted_bytes src len) = len"

fun call_source :: "call \<Rightarrow> source" where
  "call_source (add_unencrypted_bytes src len) = src"
| "call_source (add_encrypted_bytes src len) = src"

section \<open>Golomb-prefix length calculator\<close>

definition kEmulationPreventionByte :: byte where
  "kEmulationPreventionByte = 3"

text \<open>
  \<open>payloadBitIndex\<close> and \<open>sizeRemaining\<close> are \<open>uint64_t\<close>: the product
  \<open>sizeRemaining * 8\<close> and the three additions to \<open>payloadBitIndex\<close> wrap at \<open>2 ^ 64\<close>.
\<close>

function BytesCoveringH264PPS_loop ::
  "byte list \<Rightarrow> nat \<Rightarrow> nat \<Rightarrow> nat \<Rightarrow> nat \<Rightarrow> error + nat" where
  "BytesCoveringH264PPS_loop payload sizeRemaining payloadBitIndex zeroBitCount parsedExpGolombValues =
     (if payloadBitIndex < size_mul sizeRemaining 8 \<and> parsedExpGolombValues < 3 then
        let bitIndex = payloadBitIndex mod 8;
            byteIndex = payloadBitIndex div 8;
            payloadByte = payload ! byteIndex
        in
          if bitIndex = 0 \<and> byteIndex \<ge> 2 \<and> payloadByte = kEmulationPreventionByte \<and>
             payload ! (byteIndex - 1) = 0 \<and> payload ! (byteIndex - 2) = 0 then
            BytesCoveringH264PPS_loop payload sizeRemaining (size_add payloadBitIndex 8)
              zeroBitCount parsedExpGolombValues
          else if payloadByte AND push_bit (7 - bitIndex) 1 = 0 then
            if zeroBitCount + 1 \<ge> 32 then Inl length_exception
            else BytesCoveringH264PPS_loop payload sizeRemaining (size_add payloadBitIndex 1)
                   (zeroBitCount + 1) parsedExpGolombValues
          else
            BytesCoveringH264PPS_loop payload sizeRemaining
              (size_add payloadBitIndex (1 + zeroBitCount))
              0 (parsedExpGolombValues + 1)
      else Inr (payloadBitIndex div 8 + 1))"
  by pat_completeness auto
termination
proof (relation "measures [\<lambda>(payload, sizeRemaining, payloadBitIndex, zeroBitCount, parsed). 3 - parsed,
         \<lambda>(payload, sizeRemaining, payloadBitIndex, zeroBitCount, parsed).
           size_mul sizeRemaining 8 - payloadBitIndex]")
  show "wf (measures [\<lambda>(payload, sizeRemaining, payloadBitIndex, zeroBitCount, parsed). 3 - parsed,
         \<lambda>(payload, sizeRemaining, payloadBitIndex, zeroBitCount, parsed).
           size_mul sizeRemaining 8 - payloadBitIndex])"
    by simp
next
  fix payload :: "byte list" and sizeRemaining payloadBitIndex zeroBitCount parsed :: nat
    and bitIndex byteIndex :: nat and payloadByte :: byte
  assume c: "payloadBitIndex < size_mul sizeRemaining 8 \<and> parsed < 3"
    and bi: "bitIndex = payloadBitIndex mod 8"
    and e: "bitIndex = 0 \<and> 2 \<le> byteIndex \<and> payloadByte = kEmulationPreventionByte \<and>
            payload ! (byteIndex - 1) = 0 \<and> payload ! (byteIndex - 2) = 0"
  have "8 dvd size_mul sizeRemaining 8"
    unfolding size_mul_def size_max_def by (rule dvd_mod) simp_all
  moreover have "8 dvd payloadBitIndex" using bi e by (simp add: dvd_eq_mod_eq_0)
  ultimately obtain b p where b: "size_mul sizeRemaining 8 = 8 * b" and p: "payloadBitIndex = 8 * p"
    by (auto simp: dvd_def)
  with c have "payloadBitIndex + 8 \<le> size_mul sizeRemaining 8" by simp
  moreover have "size_mul sizeRemaining 8 < size_max" by (simp add: size_mul_def size_max_def)
  ultimately have "size_add payloadBitIndex 8 = payloadBitIndex + 8"
    by (simp add: size_add_def)
  moreover have "payloadBitIndex < size_mul sizeRemaining 8" using c by simp
  ultimately show "((payload, sizeRemaining, size_add payloadBitIndex 8, zeroBitCount, parsed),
          (payload, sizeRemaining, payloadBitIndex, zeroBitCount, parsed))
        \<in> measures [\<lambda>(payload, sizeRemaining, payloadBitIndex, zeroBitCount, parsed). 3 - parsed,
         \<lambda>(payload, sizeRemaining, payloadBitIndex, zeroBitCount, parsed).
           size_mul sizeRemaining 8 - payloadBitIndex]"
    by simp
next
  fix payload :: "byte list" and sizeRemaining payloadBitIndex zeroBitCount parsed :: nat
  assume c: "payloadBitIndex < size_mul sizeRemaining 8 \<and> parsed < 3"
  have "size_mul sizeRemaining 8 < size_max" by (simp add: size_mul_def size_max_def)
  with c have "size_add payloadBitIndex 1 = payloadBitIndex + 1"
    by (simp add: size_add_def)
  moreover have "payloadBitIndex < size_mul sizeRemaining 8" using c by simp
  ultimately show "((payload, sizeRemaining, size_add payloadBitIndex 1, zeroBitCount + 1, parsed),
          (payload, sizeRemaining, payloadBitIndex, zeroBitCount, parsed))
        \<in> measures [\<lambda>(payload, sizeRemaining, payloadBitIndex, zeroBitCount, parsed). 3 - parsed,
         \<lambda>(payload, sizeRemaining, payloadBitIndex, zeroBitCount, parsed).
           size_mul sizeRemaining 8 - payloadBitIndex]"
    by simp
next
  fix payload :: "byte list" and sizeRemaining payloadBitIndex zeroBitCount parsed :: nat
  assume c: "payloadBitIndex < size_mul sizeRemaining 8 \<and> parsed < 3"
  then have "parsed < 3" by (rule conjunct2)
  then have "3 - (parsed + 1) < 3 - parsed" by arith
  then show "((payload, sizeRemaining, size_add payloadBitIndex (1 + zeroBitCount), 0, parsed + 1),
          (payload, sizeRemaining, payloadBitIndex, zeroBitCount, parsed))
        \<in> measures [\<lambda>(payload, sizeRemaining, payloadBitIndex, zeroBitCount, parsed). 3 - parsed,
         \<lambda>(payload, sizeRemaining, payloadBitIndex, zeroBitCount, parsed).
           size_mul sizeRemaining 8 - payloadBitIndex]"
    by simp
qed

declare BytesCoveringH264PPS_loop.simps [simp del]

definition BytesCoveringH264PPS :: "byte list \<Rightarrow> nat \<Rightarrow> error + nat" where
  "BytesCoveringH264PPS payload sizeRemaining =
     BytesCoveringH264PPS_loop payload sizeRemaining 0 0 0"

section \<open>Partitioners for opus, VP8 and VP9\<close>

definition process_frame_opus :: "byte list \<Rightarrow> call list \<times> outcome" where
  "process_frame_opus frame =
     ([add_encrypted_bytes (frame_bytes 0) (length frame)], returns True)"

definition kVP8KeyFrameUnencryptedBytes :: nat where
  "kVP8KeyFrameUnencryptedBytes = 10"

definition kVP8DeltaFrameUnencryptedBytes :: nat where
  "kVP8DeltaFrameUnencryptedBytes = 1"

definition process_frame_vp8 :: "byte list \<Rightarrow> call list \<times> outcome" where
  "process_frame_vp8 frame =
     (if frame = [] then ([], reads_out_of_bounds)
      else
        let unencryptedHeaderBytes =
              (if frame ! 0 AND 1 = 0 then kVP8KeyFrameUnencryptedBytes
               else kVP8DeltaFrameUnencryptedBytes)
        in ([add_unencrypted_bytes (frame_bytes 0) unencryptedHeaderBytes,
             add_encrypted_bytes (frame_bytes unencryptedHeaderBytes)
               (size_sub (length frame) unencryptedHeaderBytes)],
            returns True))"

definition process_frame_vp9 :: "byte list \<Rightarrow> call list \<times> outcome" where
  "process_frame_vp9 frame =
     ([add_encrypted_bytes (frame_bytes 0) (length frame)], returns True)"

section \<open>Partitioners for H.264 and H.265\<close>

definition kH264NalHeaderTypeMask :: byte where
  "kH264NalHeaderTypeMask = 0x1F"

definition kH264NalTypeSlice :: byte where
  "kH264NalTypeSlice = 1"

definition kH264NalTypeIdr :: byte where
  "kH264NalTypeIdr = 5"

definition kH264NalUnitHeaderSize :: nat where
  "kH264NalUnitHeaderSize = 1"

definition nextNaluStart :: "byte list \<Rightarrow> (nat \<times> nat) option \<Rightarrow> nat" where
  "nextNaluStart frame nextNaluIndexPair =
     (case nextNaluIndexPair of
        Some (first, second) \<Rightarrow> size_sub first second
      | None \<Rightarrow> length frame)"

function process_frame_h264_loop ::
  "byte list \<Rightarrow> (nat \<times> nat) option \<Rightarrow> call list \<Rightarrow> call list \<times> outcome" where
  "process_frame_h264_loop frame naluIndexPair calls =
     (case naluIndexPair of
        None \<Rightarrow> (calls, returns True)
      | Some (nalUnitStartIndex, startCodeSize) \<Rightarrow>
          if nalUnitStartIndex < length frame - 1 then
            let nalType = frame ! nalUnitStartIndex AND kH264NalHeaderTypeMask;
                calls1 = calls @ [add_unencrypted_bytes (local_bytes kH26XNaluLongStartCode) 4];
                nextNaluIndexPair = FindNextH26XNaluIndex frame (length frame) nalUnitStartIndex;
                nextStart = nextNaluStart frame nextNaluIndexPair
            in
              if nalType = kH264NalTypeSlice \<or> nalType = kH264NalTypeIdr then
                let nalUnitPayloadStart = nalUnitStartIndex + kH264NalUnitHeaderSize in
                case BytesCoveringH264PPS (drop nalUnitPayloadStart frame)
                       (length frame - nalUnitPayloadStart) of
                  Inl e \<Rightarrow> (calls1, throws e)
                | Inr nalUnitPPSBytes \<Rightarrow>
                    process_frame_h264_loop frame nextNaluIndexPair
                      (calls1 @
                       [add_unencrypted_bytes (frame_bytes nalUnitStartIndex)
                          (kH264NalUnitHeaderSize + nalUnitPPSBytes),
                        add_encrypted_bytes
                          (frame_bytes (nalUnitStartIndex + kH264NalUnitHeaderSize + nalUnitPPSBytes))
                          (size_sub (size_sub (size_sub nextStart nalUnitStartIndex)
                             kH264NalUnitHeaderSize) nalUnitPPSBytes)])
              else
                process_frame_h264_loop frame nextNaluIndexPair
                  (calls1 @
                   [add_unencrypted_bytes (frame_bytes nalUnitStartIndex)
                      (size_sub nextStart nalUnitStartIndex)])
          else (calls, returns True))"
  by pat_completeness auto
termination
proof -
  have loop_gt: "FindNextH26XNaluIndex_loop buffer bufferSize i = Some (f, k) \<Longrightarrow> i < f"
    for buffer bufferSize i f k
  proof (induction buffer bufferSize i rule: FindNextH26XNaluIndex_loop.induct)
    case (1 buffer bufferSize i)
    from "1.prems" "1.IH" show ?case
      by (subst (asm) FindNextH26XNaluIndex_loop.simps)
         (auto simp: kH26XNaluShortStartSequenceSize_def Let_def split: if_splits)
  qed
  have gt: "FindNextH26XNaluIndex buffer bufferSize i = Some (f, k) \<Longrightarrow> i < f"
    for buffer bufferSize i f k
    by (auto simp: FindNextH26XNaluIndex_def dest: loop_gt split: if_splits)
  show ?thesis
    by (relation "measure (\<lambda>(frame, naluIndexPair, calls).
         case naluIndexPair of None \<Rightarrow> 0 | Some (first, second) \<Rightarrow> Suc (length frame - first))")
       (auto split: option.splits dest!: gt)
qed

definition process_frame_h264 :: "byte list \<Rightarrow> call list \<times> outcome" where
  "process_frame_h264 frame =
     (if length frame < kH26XNaluShortStartSequenceSize + kH264NalUnitHeaderSize then
        ([], throws length_exception)
      else process_frame_h264_loop frame (FindNextH26XNaluIndex frame (length frame) 0) [])"

definition kH265NalHeaderTypeMask :: byte where
  "kH265NalHeaderTypeMask = 0x7E"

definition kH265NalTypeVclCutoff :: byte where
  "kH265NalTypeVclCutoff = 32"

definition kH265NalUnitHeaderSize :: nat where
  "kH265NalUnitHeaderSize = 2"

function process_frame_h265_loop ::
  "byte list \<Rightarrow> (nat \<times> nat) option \<Rightarrow> call list \<Rightarrow> call list \<times> outcome" where
  "process_frame_h265_loop frame naluIndexPair calls =
     (case naluIndexPair of
        None \<Rightarrow> (calls, returns True)
      | Some (nalUnitStartIndex, startCodeSize) \<Rightarrow>
          if nalUnitStartIndex < length frame - 1 then
            let nalType = drop_bit 1 (frame ! nalUnitStartIndex AND kH265NalHeaderTypeMask);
                calls1 = calls @ [add_unencrypted_bytes (local_bytes kH26XNaluLongStartCode) 4];
                nextNaluIndexPair = FindNextH26XNaluIndex frame (length frame) nalUnitStartIndex;
                nextStart = nextNaluStart frame nextNaluIndexPair
            in
              if nalType < kH265NalTypeVclCutoff then
                process_frame_h265_loop frame nextNaluIndexPair
                  (calls1 @
                   [add_unencrypted_bytes (frame_bytes nalUnitStartIndex) kH265NalUnitHeaderSize,
                    add_encrypted_bytes
                      (frame_bytes (nalUnitStartIndex + kH265NalUnitHeaderSize))
                      (size_sub (size_sub nextStart nalUnitStartIndex) kH265NalUnitHeaderSize)])
              else
                process_frame_h265_loop frame nextNaluIndexPair
                  (calls1 @
                   [add_unencrypted_bytes (frame_bytes nalUnitStartIndex)
                      (size_sub nextStart nalUnitStartIndex)])
          else (calls, returns True))"
  by pat_completeness auto
termination
proof -
  have loop_gt: "FindNextH26XNaluIndex_loop buffer bufferSize i = Some (f, k) \<Longrightarrow> i < f"
    for buffer bufferSize i f k
  proof (induction buffer bufferSize i rule: FindNextH26XNaluIndex_loop.induct)
    case (1 buffer bufferSize i)
    from "1.prems" "1.IH" show ?case
      by (subst (asm) FindNextH26XNaluIndex_loop.simps)
         (auto simp: kH26XNaluShortStartSequenceSize_def Let_def split: if_splits)
  qed
  have gt: "FindNextH26XNaluIndex buffer bufferSize i = Some (f, k) \<Longrightarrow> i < f"
    for buffer bufferSize i f k
    by (auto simp: FindNextH26XNaluIndex_def dest: loop_gt split: if_splits)
  show ?thesis
    by (relation "measure (\<lambda>(frame, naluIndexPair, calls).
         case naluIndexPair of None \<Rightarrow> 0 | Some (first, second) \<Rightarrow> Suc (length frame - first))")
       (auto split: option.splits dest!: gt)
qed

declare process_frame_h264_loop.simps [simp del]
declare process_frame_h265_loop.simps [simp del]

definition process_frame_h265 :: "byte list \<Rightarrow> call list \<times> outcome" where
  "process_frame_h265 frame =
     (if length frame < kH26XNaluShortStartSequenceSize + kH265NalUnitHeaderSize then
        ([], throws length_exception)
      else process_frame_h265_loop frame (FindNextH26XNaluIndex frame (length frame) 0) [])"

section \<open>Partitioner for AV1\<close>

text \<open>
  \<open>read_leb128\<close> and \<open>write_leb128\<close> come from \<open>leb128.h\<close>, which is not part of the
  sources at hand; they are parameters of the model. \<open>read_leb128 bytes\<close> receives the
  bytes from the read position to \<open>frame.end()\<close> and yields the decoded value with the
  number of bytes the read pointer advanced, or \<open>None\<close> when it sets the pointer to null.
  \<open>write_leb128 value\<close> yields the bytes written to the scratch buffer.
\<close>

type_synonym leb128_reader = "byte list \<Rightarrow> (nat \<times> nat) option"
type_synonym leb128_writer = "nat \<Rightarrow> byte list"

definition kAv1ObuHeaderHasExtensionMask :: byte where
  "kAv1ObuHeaderHasExtensionMask = 0x04"

definition kAv1ObuHeaderHasSizeMask :: byte where
  "kAv1ObuHeaderHasSizeMask = 0x02"

definition kAv1ObuHeaderTypeMask :: byte where
  "kAv1ObuHeaderTypeMask = 0x78"

definition kObuTypeTemporalDelimiter :: byte where
  "kObuTypeTemporalDelimiter = 2"

definition kObuTypeTileList :: byte where
  "kObuTypeTileList = 8"

definition kObuTypePadding :: byte where
  "kObuTypePadding = 15"

definition kObuExtensionSizeBytes :: nat where
  "kObuExtensionSizeBytes = 1"

text \<open>
  One iteration of the loop of \<open>process_frame_av1\<close>, entered with \<open>i < frame.size()\<close>:
  it throws before making any call, or yields the new value of \<open>i\<close> and the calls made.
\<close>

definition process_frame_av1_obu ::
  "leb128_reader \<Rightarrow> leb128_writer \<Rightarrow> byte list \<Rightarrow> nat \<Rightarrow> error + (nat \<times> call list)" where
  "process_frame_av1_obu read_leb128 write_leb128 frame i0 =
     (let obuHeaderIndex = i0;
          obuHeader = frame ! obuHeaderIndex;
          i1 = i0 + 1;
          obuHasExtension = (obuHeader AND kAv1ObuHeaderHasExtensionMask \<noteq> 0);
          obuHasSize = (obuHeader AND kAv1ObuHeaderHasSizeMask \<noteq> 0);
          obuType = drop_bit 3 (obuHeader AND kAv1ObuHeaderTypeMask);
          i2 = (if obuHasExtension then i1 + kObuExtensionSizeBytes else i1)
      in
        if i2 \<ge> length frame then Inl logic_exception
        else
          case (if obuHasSize then read_leb128 (drop i2 frame)
                else Some (length frame - i2, 0)) of
            None \<Rightarrow> Inl logic_exception
          | Some (obuPayloadSize, consumed) \<Rightarrow>
              let i3 = i2 + consumed;
                  obuPayloadIndex = i3
              in
                if size_add i3 obuPayloadSize > length frame then Inl logic_exception
                else
                  let i4 = size_add i3 obuPayloadSize in
                  if obuType \<noteq> kObuTypeTemporalDelimiter \<and> obuType \<noteq> kObuTypeTileList \<and>
                     obuType \<noteq> kObuTypePadding then
                    let rewrittenWithoutSize = (i4 = length frame \<and> obuHasSize);
                        obuHeader' = (if rewrittenWithoutSize
                                      then obuHeader AND NOT kAv1ObuHeaderHasSizeMask
                                      else obuHeader)
                    in Inr (i4,
                         [add_unencrypted_bytes (local_bytes [obuHeader']) 1] @
                         (if obuHasExtension
                          then [add_unencrypted_bytes (frame_bytes (obuHeaderIndex + 1))
                                  kObuExtensionSizeBytes]
                          else []) @
                         (if obuHasSize \<and> \<not> rewrittenWithoutSize
                          then [add_unencrypted_bytes (local_bytes (write_leb128 obuPayloadSize))
                                  (length (write_leb128 obuPayloadSize))]
                          else []) @
                         [add_encrypted_bytes (frame_bytes obuPayloadIndex) obuPayloadSize])
                  else Inr (i4, []))"

partial_function (option) process_frame_av1_loop ::
  "leb128_reader \<Rightarrow> leb128_writer \<Rightarrow> byte list \<Rightarrow> nat \<Rightarrow> call list \<Rightarrow>
     (call list \<times> outcome) option" where
  "process_frame_av1_loop read_leb128 write_leb128 frame i calls =
     (if i < length frame then
        case process_frame_av1_obu read_leb128 write_leb128 frame i of
          Inl e \<Rightarrow> Some (calls, throws e)
        | Inr (i', obuCalls) \<Rightarrow>
            process_frame_av1_loop read_leb128 write_leb128 frame i' (calls @ obuCalls)
      else Some (calls, returns True))"

declare process_frame_av1_loop.simps [code]

definition process_frame_av1 ::
  "leb128_reader \<Rightarrow> leb128_writer \<Rightarrow> byte list \<Rightarrow> (call list \<times> outcome) option" where
  "process_frame_av1 read_leb128 write_leb128 frame =
     process_frame_av1_loop read_leb128 write_leb128 frame 0 []"

section \<open>Post-encryption validator\<close>

record byte_range =
  offset :: nat
  range_size :: nat

definition Padding :: nat where
  "Padding = kH26XNaluShortStartSequenceSize - 1"

text \<open>
  The loop over the unencrypted ranges: \<open>None\<close> when the loop returns false from inside,
  otherwise the value of \<open>encryptedSectionStart\<close> after the last range. The sums of
  \<open>size_t\<close> values wrap at \<open>2 ^ 64\<close>.
\<close>

fun validate_encrypted_frame_loop ::
  "byte list \<Rightarrow> nat \<Rightarrow> byte_range list \<Rightarrow> nat option" where
  "validate_encrypted_frame_loop frame encryptedSectionStart [] = Some encryptedSectionStart"
| "validate_encrypted_frame_loop frame encryptedSectionStart (rng # ranges) =
     (if encryptedSectionStart = offset rng then
        validate_encrypted_frame_loop frame
          (size_add encryptedSectionStart (range_size rng)) ranges
      else
        let start = encryptedSectionStart - min encryptedSectionStart Padding;
            end' = min (size_add (offset rng) Padding) (length frame)
        in
          if FindNextH26XNaluIndex (drop start frame) (size_sub end' start) 0 \<noteq> None then None
          else validate_encrypted_frame_loop frame
                 (size_add (offset rng) (range_size rng)) ranges)"

definition validate_encrypted_frame :: "codec \<Rightarrow> byte_range list \<Rightarrow> byte list \<Rightarrow> bool" where
  "validate_encrypted_frame codec unencryptedRanges frame =
     (if codec \<noteq> cd_h264 \<and> codec \<noteq> cd_h265 then True
      else
        case validate_encrypted_frame_loop frame 0 unencryptedRanges of
          None \<Rightarrow> False
        | Some encryptedSectionStart \<Rightarrow>
            if encryptedSectionStart = length frame then True
            else
              let start = encryptedSectionStart - min encryptedSectionStart Padding;
                  end' = length frame
              in
                if FindNextH26XNaluIndex (drop start frame) (size_sub end' start) 0 \<noteq> None
                then False
                else True)"

section \<open>NAL units of a frame\<close>

text \<open>
  The NAL units the H.264 and H.265 partitioners walk, described by the markers of the
  frame rather than by the run of the scanner. A unit starts just past a marker. The
  partitioners only process a unit whose start index is below \<open>frame.size() - 1\<close>, that
  is, a unit with at least two bytes up to the end of the frame.
\<close>

definition walked_units_from :: "byte list \<Rightarrow> nat \<Rightarrow> nat list" where
  "walked_units_from frame s =
     map (\<lambda>p. p + 3) (filter (is_marker frame) [s..<length frame - 4])"

definition walked_units :: "byte list \<Rightarrow> nat list" where
  "walked_units frame = walked_units_from frame 0"

text \<open>
  The boundary that ends the unit starting at \<open>f\<close>: the first byte of the next start
  code (counting a 00 byte before the marker as part of it), or the end of the frame.
\<close>

definition unit_end :: "byte list \<Rightarrow> nat \<Rightarrow> nat" where
  "unit_end frame f =
     (case List.find (is_marker frame) [f..<length frame - 3] of
        None \<Rightarrow> length frame
      | Some p \<Rightarrow> p + 3 - marker_len frame p)"

text \<open>Running a per-unit emission over a list of units, stopping at the first error.\<close>

fun emit_units :: "(nat \<Rightarrow> call list \<times> error option) \<Rightarrow> nat list \<Rightarrow> call list \<times> outcome" where
  "emit_units u [] = ([], returns True)"
| "emit_units u (f # fs) =
     (case u f of
        (cs, Some e) \<Rightarrow> (cs, throws e)
      | (cs, None) \<Rightarrow> (cs @ fst (emit_units u fs), snd (emit_units u fs)))"

text \<open>What the body of the H.265 loop does for the unit starting at \<open>f\<close>.\<close>

definition h265_nal_type :: "byte list \<Rightarrow> nat \<Rightarrow> byte" where
  "h265_nal_type frame f = drop_bit 1 (frame ! f AND kH265NalHeaderTypeMask)"

definition h265_nal_unit :: "byte list \<Rightarrow> nat \<Rightarrow> call list \<times> error option" where
  "h265_nal_unit frame f =
     (if h265_nal_type frame f < kH265NalTypeVclCutoff then
        ([add_unencrypted_bytes (local_bytes kH26XNaluLongStartCode) 4,
          add_unencrypted_bytes (frame_bytes f) kH265NalUnitHeaderSize,
          add_encrypted_bytes (frame_bytes (f + kH265NalUnitHeaderSize))
            (size_sub (size_sub (unit_end frame f) f) kH265NalUnitHeaderSize)], None)
      else
        ([add_unencrypted_bytes (local_bytes kH26XNaluLongStartCode) 4,
          add_unencrypted_bytes (frame_bytes f) (size_sub (unit_end frame f) f)], None))"

text \<open>What the body of the H.264 loop does for the unit starting at \<open>f\<close>.\<close>

definition h264_nal_type :: "byte list \<Rightarrow> nat \<Rightarrow> byte" where
  "h264_nal_type frame f = frame ! f AND kH264NalHeaderTypeMask"

definition h264_pps_bytes :: "byte list \<Rightarrow> nat \<Rightarrow> error + nat" where
  "h264_pps_bytes frame f =
     BytesCoveringH264PPS (drop (f + kH264NalUnitHeaderSize) frame)
       (length frame - (f + kH264NalUnitHeaderSize))"

definition h264_nal_unit :: "byte list \<Rightarrow> nat \<Rightarrow> call list \<times> error option" where
  "h264_nal_unit frame f =
     (if h264_nal_type frame f = kH264NalTypeSlice \<or> h264_nal_type frame f = kH264NalTypeIdr then
        case h264_pps_bytes frame f of
          Inl e \<Rightarrow> ([add_unencrypted_bytes (local_bytes kH26XNaluLongStartCode) 4], Some e)
        | Inr nalUnitPPSBytes \<Rightarrow>
            ([add_unencrypted_bytes (local_bytes kH26XNaluLongStartCode) 4,
              add_unencrypted_bytes (frame_bytes f) (kH264NalUnitHeaderSize + nalUnitPPSBytes),
              add_encrypted_bytes (frame_bytes (f + kH264NalUnitHeaderSize + nalUnitPPSBytes))
                (size_sub (size_sub (size_sub (unit_end frame f) f) kH264NalUnitHeaderSize)
                   nalUnitPPSBytes)], None)
      else
        ([add_unencrypted_bytes (local_bytes kH26XNaluLongStartCode) 4,
          add_unencrypted_bytes (frame_bytes f) (size_sub (unit_end frame f) f)], None))"

section \<open>Per-unit behaviour in the words of the specification\<close>

text \<open>
  H.265: the 6-bit type is read from bits 1 to 6 of the first header byte. A unit of type
  below 32 has its 2-byte header left unencrypted and the payload up to the next unit
  boundary (or frame end) encrypted; a unit of type 32 or above is left unencrypted as a
  whole. Each unit is preceded by the 4-byte start code 00 00 00 01.
\<close>

definition h265_unit_type :: "byte list \<Rightarrow> nat \<Rightarrow> nat" where
  "h265_unit_type frame f = (unat (frame ! f) div 2) mod 64"

definition h265_unit_calls :: "byte list \<Rightarrow> nat \<Rightarrow> call list" where
  "h265_unit_calls frame f =
     (if h265_unit_type frame f < 32 then
        [add_unencrypted_bytes (local_bytes [0, 0, 0, 1]) 4,
         add_unencrypted_bytes (frame_bytes f) 2,
         add_encrypted_bytes (frame_bytes (f + 2)) (unit_end frame f - (f + 2))]
      else
        [add_unencrypted_bytes (local_bytes [0, 0, 0, 1]) 4,
         add_unencrypted_bytes (frame_bytes f) (unit_end frame f - f)])"

text \<open>The 2-byte header of a unit of type below 32 ends at or before the unit's boundary.\<close>

definition h265_unit_fits :: "byte list \<Rightarrow> nat \<Rightarrow> bool" where
  "h265_unit_fits frame f = (h265_unit_type frame f < 32 \<longrightarrow> f + 2 \<le> unit_end frame f)"

text \<open>
  H.264: the type is the low 5 bits of the header byte. A slice (1) or IDR (5) unit has
  its 1-byte header plus the Golomb-computed prefix left unencrypted and the remainder up
  to the next unit boundary (or frame end) encrypted; every other unit is left unencrypted
  as a whole. Each unit is preceded by the 4-byte start code 00 00 00 01. The length
  error of the prefix calculator ends the run after the start code of the unit.
\<close>

definition h264_unit_type :: "byte list \<Rightarrow> nat \<Rightarrow> nat" where
  "h264_unit_type frame f = unat (frame ! f) mod 32"

definition h264_unit_spec :: "byte list \<Rightarrow> nat \<Rightarrow> call list \<times> error option" where
  "h264_unit_spec frame f =
     (if h264_unit_type frame f = 1 \<or> h264_unit_type frame f = 5 then
        case BytesCoveringH264PPS (drop (f + 1) frame) (length frame - (f + 1)) of
          Inl e \<Rightarrow> ([add_unencrypted_bytes (local_bytes [0, 0, 0, 1]) 4], Some e)
        | Inr prefix \<Rightarrow>
            ([add_unencrypted_bytes (local_bytes [0, 0, 0, 1]) 4,
              add_unencrypted_bytes (frame_bytes f) (1 + prefix),
              add_encrypted_bytes (frame_bytes (f + 1 + prefix))
                (unit_end frame f - (f + 1 + prefix))], None)
      else
        ([add_unencrypted_bytes (local_bytes [0, 0, 0, 1]) 4,
          add_unencrypted_bytes (frame_bytes f) (unit_end frame f - f)], None))"

text \<open>The header and Golomb prefix of a slice or IDR unit end at or before the unit's
  boundary.\<close>

definition h264_unit_fits :: "byte list \<Rightarrow> nat \<Rightarrow> bool" where
  "h264_unit_fits frame f =
     (case BytesCoveringH264PPS (drop (f + 1) frame) (length frame - (f + 1)) of
        Inl e \<Rightarrow> True
      | Inr prefix \<Rightarrow>
          (h264_unit_type frame f = 1 \<or> h264_unit_type frame f = 5) \<longrightarrow>
            f + 1 + prefix \<le> unit_end frame f)"

section \<open>Encrypted spans of a frame\<close>

text \<open>
  The unencrypted ranges of an accumulator are ordered, do not overlap and lie within the
  frame (the cursor only moves forward).
\<close>

fun ranges_wf :: "nat \<Rightarrow> byte_range list \<Rightarrow> nat \<Rightarrow> bool" where
  "ranges_wf c [] n = (c \<le> n)"
| "ranges_wf c (r # rs) n = (c \<le> offset r \<and> ranges_wf (offset r + range_size r) rs n)"

text \<open>
  The encrypted spans are what lies between two recorded unencrypted ranges, before the
  first one, or after the last one up to the end of the frame; a span is a pair of its
  first index and the index just past it.
\<close>

fun encrypted_spans :: "nat \<Rightarrow> byte_range list \<Rightarrow> nat \<Rightarrow> (nat \<times> nat) list" where
  "encrypted_spans c [] n = (if c < n then [(c, n)] else [])"
| "encrypted_spans c (r # rs) n =
     (if c < offset r then [(c, offset r)] else []) @
     encrypted_spans (offset r + range_size r) rs n"

text \<open>
  A marker at \<open>p\<close> is met in the window of the span \<open>(s, e)\<close>: the window runs from
  2 bytes before the span to 2 bytes past it, clipped to the frame, and the marker is
  followed by at least one more byte of the window.
\<close>

definition marker_in_window :: "byte list \<Rightarrow> nat \<times> nat \<Rightarrow> nat \<Rightarrow> bool" where
  "marker_in_window frame span p =
     (fst span - min (fst span) 2 \<le> p \<and> p + 3 < min (snd span + 2) (length frame) \<and>
      is_marker frame p)"

text \<open>
  The part of \<open>validate_encrypted_frame\<close> that follows the loop over the ranges, as a
  function of the loop's result.
\<close>

definition validate_tail :: "byte list \<Rightarrow> nat option \<Rightarrow> bool" where
  "validate_tail frame x =
     (case x of
        None \<Rightarrow> False
      | Some encryptedSectionStart \<Rightarrow>
          if encryptedSectionStart = length frame then True
          else
            let start = encryptedSectionStart - min encryptedSectionStart Padding;
                end' = length frame
            in
              if FindNextH26XNaluIndex (drop start frame) (size_sub end' start) 0 \<noteq> None
              then False
              else True)"

section \<open>OBUs of an AV1 frame in the words of the specification\<close>

text \<open>
  An OBU header byte holds the extension-present flag (bit 2), the size-present flag
  (bit 1) and a 4-bit type (bits 3 to 6). With an extension the header is one byte
  longer. With a size, a LEB128 value after the header gives the payload length;
  without, the payload runs to the end of the frame.
\<close>

record obu =
  obu_index :: nat
  obu_header :: byte
  obu_has_extension :: bool
  obu_has_size :: bool
  obu_type :: nat
  obu_payload_index :: nat
  obu_payload_size :: nat

definition obu_header_end :: "byte list \<Rightarrow> nat \<Rightarrow> nat" where
  "obu_header_end frame i = i + 1 + (if bit (frame ! i) 2 then 1 else 0)"

text \<open>
  The OBU at index \<open>i\<close>, or \<open>None\<close> for a malformed one: no byte of the frame is left
  after the header and its extension byte, or the size field fails to decode, or the
  payload ends past the end of the frame.
\<close>

definition obu_parse :: "leb128_reader \<Rightarrow> byte list \<Rightarrow> nat \<Rightarrow> obu option" where
  "obu_parse read_leb128 frame i =
     (if obu_header_end frame i \<ge> length frame then None
      else
        case (if bit (frame ! i) 1 then read_leb128 (drop (obu_header_end frame i) frame)
              else Some (length frame - obu_header_end frame i, 0)) of
          None \<Rightarrow> None
        | Some (payloadSize, sizeBytes) \<Rightarrow>
            if obu_header_end frame i + sizeBytes + payloadSize > length frame then None
            else Some \<lparr>obu_index = i, obu_header = frame ! i,
                       obu_has_extension = bit (frame ! i) 2,
                       obu_has_size = bit (frame ! i) 1,
                       obu_type = (unat (frame ! i) div 8) mod 16,
                       obu_payload_index = obu_header_end frame i + sizeBytes,
                       obu_payload_size = payloadSize\<rparr>)"

definition obu_end :: "obu \<Rightarrow> nat" where
  "obu_end ob = obu_payload_index ob + obu_payload_size ob"

text \<open>
  The OBUs of the frame from index \<open>i\<close> on, up to the first malformed one, and whether
  the walk reached the end of the frame without meeting a malformed OBU.
\<close>

function av1_obus :: "leb128_reader \<Rightarrow> byte list \<Rightarrow> nat \<Rightarrow> obu list \<times> bool" where
  "av1_obus read_leb128 frame i =
     (if i < length frame then
        case obu_parse read_leb128 frame i of
          None \<Rightarrow> ([], False)
        | Some ob \<Rightarrow>
            (ob # fst (av1_obus read_leb128 frame (obu_end ob)),
             snd (av1_obus read_leb128 frame (obu_end ob)))
      else ([], True))"
  by pat_completeness auto
termination
proof (relation "measure (\<lambda>(read_leb128, frame, i). length frame - i)")
  show "wf (measure (\<lambda>(read_leb128, frame, i). length frame - i))" by simp
next
  fix read_leb128 :: leb128_reader and frame :: "byte list" and i ob
  assume "i < length frame" "obu_parse read_leb128 frame i = Some ob"
  then have "i < obu_end ob"
    by (auto simp: obu_parse_def obu_end_def obu_header_end_def split: if_splits option.splits)
  with \<open>i < length frame\<close>
  show "((read_leb128, frame, obu_end ob), (read_leb128, frame, i))
          \<in> measure (\<lambda>(read_leb128, frame, i). length frame - i)"
    by simp
next
  fix read_leb128 :: leb128_reader and frame :: "byte list" and i ob
  assume "i < length frame" "obu_parse read_leb128 frame i = Some ob"
  then have "i < obu_end ob"
    by (auto simp: obu_parse_def obu_end_def obu_header_end_def split: if_splits option.splits)
  with \<open>i < length frame\<close>
  show "((read_leb128, frame, obu_end ob), (read_leb128, frame, i))
          \<in> measure (\<lambda>(read_leb128, frame, i). length frame - i)"
    by simp
qed

declare av1_obus.simps [simp del]

text \<open>
  The calls for one OBU. An OBU of type temporal delimiter (2), tile list (8) or padding
  (15) is dropped. A retained OBU has its header byte emitted unencrypted, then its
  extension byte if present, then its payload encrypted. If it reaches the end of the
  frame and has a size, the header is emitted with the size-present bit cleared and no
  size field; otherwise, if it has a size, the size is written again by the LEB128 writer
  and emitted unencrypted before the payload.
\<close>

definition obu_dropped :: "obu \<Rightarrow> bool" where
  "obu_dropped ob = (obu_type ob = 2 \<or> obu_type ob = 8 \<or> obu_type ob = 15)"

definition obu_calls :: "leb128_writer \<Rightarrow> byte list \<Rightarrow> obu \<Rightarrow> call list" where
  "obu_calls write_leb128 frame ob =
     (if obu_dropped ob then []
      else if obu_end ob = length frame \<and> obu_has_size ob then
        [add_unencrypted_bytes (local_bytes [unset_bit 1 (obu_header ob)]) 1] @
        (if obu_has_extension ob
         then [add_unencrypted_bytes (frame_bytes (obu_index ob + 1)) 1] else []) @
        [add_encrypted_bytes (frame_bytes (obu_payload_index ob)) (obu_payload_size ob)]
      else
        [add_unencrypted_bytes (local_bytes [obu_header ob]) 1] @
        (if obu_has_extension ob
         then [add_unencrypted_bytes (frame_bytes (obu_index ob + 1)) 1] else []) @
        (if obu_has_size ob
         then [add_unencrypted_bytes (local_bytes (write_leb128 (obu_payload_size ob)))
                 (length (write_leb128 (obu_payload_size ob)))]
         else []) @
        [add_encrypted_bytes (frame_bytes (obu_payload_index ob)) (obu_payload_size ob)])"

text \<open>
  No size computed for the frame leaves the range of \<open>size_t\<close>: the frame is shorter
  than \<open>2 ^ 64\<close> bytes, and so is the end of every payload whose size the reader can
  decode in the frame.
\<close>

definition sizes_in_range :: "leb128_reader \<Rightarrow> byte list \<Rightarrow> bool" where
  "sizes_in_range read_leb128 frame =
     (length frame < size_max \<and>
      list_all
        (\<lambda>j. case read_leb128 (drop j frame) of
               None \<Rightarrow> True
             | Some (payloadSize, sizeBytes) \<Rightarrow> j + sizeBytes + payloadSize < size_max)
        [0..<length frame])"

text \<open>
  Modelled from the spec: the varint codec of \<open>leb128.h\<close> is not among the sources. The
  spec describes it as a byte-oriented variable-length little-endian format with
  continuation bits; it does not give the bound on the encoded size, which is left out
  here. These two functions only serve to run the AV1 partitioner on concrete frames.
\<close>

fun sample_read_leb128 :: leb128_reader where
  "sample_read_leb128 [] = None"
| "sample_read_leb128 (b # bs) =
     (if b < 128 then Some (unat b, 1)
      else case sample_read_leb128 bs of
             None \<Rightarrow> None
           | Some (v, k) \<Rightarrow> Some (unat b - 128 + 128 * v, k + 1))"

function sample_write_leb128 :: leb128_writer where
  "sample_write_leb128 v =
     (if v < 128 then [word_of_nat v]
      else word_of_nat (128 + v mod 128) # sample_write_leb128 (v div 128))"
  by pat_completeness auto
termination
  by (relation "measure (\<lambda>v. v)") auto

declare sample_write_leb128.simps [simp del]

text \<open>
  The OBU at index \<open>i\<close> is malformed: no byte of the frame is left after its header and
  extension byte, or it has a size field that fails to decode, or whose value puts the end
  of the payload past the end of the frame.
\<close>

definition obu_malformed :: "leb128_reader \<Rightarrow> byte list \<Rightarrow> nat \<Rightarrow> bool" where
  "obu_malformed read_leb128 frame i =
     (obu_header_end frame i \<ge> length frame \<or>
      (bit (frame ! i) 1 \<and>
       (case read_leb128 (drop (obu_header_end frame i) frame) of
          None \<Rightarrow> True
        | Some (payloadSize, sizeBytes) \<Rightarrow>
            obu_header_end frame i + sizeBytes + payloadSize > length frame)))"

text \<open>The walk over the OBUs that starts at index \<open>i\<close> comes to index \<open>j\<close>.\<close>

inductive obu_walk :: "leb128_reader \<Rightarrow> byte list \<Rightarrow> nat \<Rightarrow> nat \<Rightarrow> bool"
  for read_leb128 :: leb128_reader and frame :: "byte list" where
  obu_walk_here: "obu_walk read_leb128 frame i i"
| obu_walk_next:
    "i < length frame \<Longrightarrow> obu_parse read_leb128 frame i = Some ob \<Longrightarrow>
     obu_walk read_leb128 frame (obu_end ob) j \<Longrightarrow> obu_walk read_leb128 frame i j"

section \<open>Exponential-Golomb prefix in the words of the specification\<close>

text \<open>
  Byte \<open>k\<close> of the payload is an emulation-prevention byte: a 03 that follows two 00
  bytes. Such bytes are not data. The data bytes are the others, in order, and the data
  bits are their bits, most significant bit first.
\<close>

definition emulation_prevention :: "byte list \<Rightarrow> nat \<Rightarrow> bool" where
  "emulation_prevention payload k =
     (k \<ge> 2 \<and> payload ! k = 3 \<and> payload ! (k - 1) = 0 \<and> payload ! (k - 2) = 0)"

definition data_bytes :: "byte list \<Rightarrow> nat \<Rightarrow> nat list" where
  "data_bytes payload n = filter (\<lambda>k. \<not> emulation_prevention payload k) [0..<n]"

definition data_bit :: "byte list \<Rightarrow> nat \<Rightarrow> nat \<Rightarrow> bool" where
  "data_bit payload n j = bit (payload ! (data_bytes payload n ! (j div 8))) (7 - j mod 8)"

definition data_bits :: "byte list \<Rightarrow> nat \<Rightarrow> bool list" where
  "data_bits payload n = map (data_bit payload n) [0..<8 * length (data_bytes payload n)]"

text \<open>The run of zero data bits that starts at data bit \<open>s\<close>.\<close>

definition zero_run :: "byte list \<Rightarrow> nat \<Rightarrow> nat \<Rightarrow> nat" where
  "zero_run payload n s = length (takeWhile Not (drop s (data_bits payload n)))"

text \<open>
  An Exponential-Golomb code that starts at data bit \<open>s\<close> is a run of \<open>z\<close> zero bits, a
  one bit and \<open>z\<close> further bits. \<open>golomb_cover payload n s c\<close> reads \<open>c\<close> such codes from
  data bit \<open>s\<close> on and gives the number of bytes of the payload that cover everything up
  to the last bit read (data bit \<open>s - 1\<close> when no code is left to read); it gives the
  length error when a run of zero bits reaches 32, and \<open>None\<close> when the data bits end
  before the codes do.
\<close>

fun golomb_cover :: "byte list \<Rightarrow> nat \<Rightarrow> nat \<Rightarrow> nat \<Rightarrow> (error + nat) option" where
  "golomb_cover payload n s 0 = Some (Inr (data_bytes payload n ! ((s - 1) div 8) + 1))"
| "golomb_cover payload n s (Suc c) =
     (let z = zero_run payload n s in
        if z \<ge> 32 then Some (Inl length_exception)
        else if s + 2 * z + 1 > 8 * length (data_bytes payload n) then None
        else golomb_cover payload n (s + 2 * z + 1) c)"

text \<open>
  No emulation-prevention byte lies between the bytes that hold data bits \<open>a\<close> and
  \<open>b\<close>; and, for the \<open>c\<close> codes read from data bit \<open>s\<close> on, none lies among the
  bits that follow the one bit of a code.
\<close>

definition no_emulation_between :: "byte list \<Rightarrow> nat \<Rightarrow> nat \<Rightarrow> nat \<Rightarrow> bool" where
  "no_emulation_between payload n a b =
     (data_bytes payload n ! (b div 8) = data_bytes payload n ! (a div 8) + (b div 8 - a div 8))"

fun suffixes_contiguous :: "byte list \<Rightarrow> nat \<Rightarrow> nat \<Rightarrow> nat \<Rightarrow> bool" where
  "suffixes_contiguous payload n s 0 = True"
| "suffixes_contiguous payload n s (Suc c) =
     (let z = zero_run payload n s in
        if z \<ge> 32 \<or> s + 2 * z + 1 > 8 * length (data_bytes payload n) then True
        else no_emulation_between payload n (s + z) (s + 2 * z) \<and>
             suffixes_contiguous payload n (s + 2 * z + 1) c)"

text \<open>The position in the payload of data bit \<open>j\<close>.\<close>

definition raw_position :: "byte list \<Rightarrow> nat \<Rightarrow> nat \<Rightarrow> nat" where
  "raw_position payload n j = 8 * (data_bytes payload n ! (j div 8)) + j mod 8"

text \<open>
  \<open>before_data_bit payload n j p\<close>: the bit position \<open>p\<close> of the payload is that of data
  bit \<open>j\<close>, or the start of the emulation-prevention byte just before it.
\<close>

definition before_data_bit :: "byte list \<Rightarrow> nat \<Rightarrow> nat \<Rightarrow> nat \<Rightarrow> bool" where
  "before_data_bit payload n j p =
     (p = raw_position payload n j \<or>
      (j mod 8 = 0 \<and> p + 8 = raw_position payload n j \<and> p mod 8 = 0 \<and>
       emulation_prevention payload (p div 8)))"

text \<open>
  \<open>after_data_bits payload n s p\<close>: the loop has consumed the data bits before data bit
  \<open>s\<close> and stands at bit position \<open>p\<close> of the payload.
\<close>

definition after_data_bits :: "byte list \<Rightarrow> nat \<Rightarrow> nat \<Rightarrow> nat \<Rightarrow> bool" where
  "after_data_bits payload n s p =
     ((s = 0 \<and> p = 0) \<or>
      (0 < s \<and> s - 1 < 8 * length (data_bytes payload n) \<and>
       p = raw_position payload n (s - 1) + 1))"

section \<open>Coverage of the frame by the emitted ranges\<close>

text \<open>
  Modelled from the spec: the accumulator (\<open>outbound_frame_processor\<close>) is not among the
  sources. By the spec both \<open>add_unencrypted_bytes\<close> and \<open>add_encrypted_bytes\<close> advance a
  cursor by the given length, so the range of a call is the pair of the cursor before the
  call and the length.

  \<open>laid_out frame c calls\<close>: the calls, made from cursor \<open>c\<close> on, pass the bytes of the
  frame in order and without gap or overlap: each call stays within the frame, a call
  whose pointer lies in the frame points at the cursor, and a call that passes other bytes
  passes the same bytes as the frame holds at the cursor. \<open>covers_frame\<close>: laid out from
  0, the ranges end at the length of the frame.
\<close>

fun emitted_ranges :: "nat \<Rightarrow> call list \<Rightarrow> (nat \<times> nat) list" where
  "emitted_ranges c [] = []"
| "emitted_ranges c (x # xs) = (c, call_size x) # emitted_ranges (c + call_size x) xs"

fun laid_out :: "byte list \<Rightarrow> nat \<Rightarrow> call list \<Rightarrow> bool" where
  "laid_out frame c [] = True"
| "laid_out frame c (x # xs) =
     (c + call_size x \<le> length frame \<and>
      (case call_source x of
         frame_bytes off \<Rightarrow> off = c
       | local_bytes bs \<Rightarrow> take (call_size x) bs = take (call_size x) (drop c frame)) \<and>
      laid_out frame (c + call_size x) xs)"

definition covers_frame :: "byte list \<Rightarrow> call list \<Rightarrow> bool" where
  "covers_frame frame calls =
     (laid_out frame 0 calls \<and> sum_list (map call_size calls) = length frame)"

text \<open>
  The frames of H.264 and H.265 that the partitioners do not re-frame: the frame begins
  with the 4-byte start code, and every marker in the frame has a 00 byte before it and
  at least two bytes after it.
\<close>

definition long_start_codes :: "byte list \<Rightarrow> bool" where
  "long_start_codes frame =
     (take 4 frame = [0, 0, 0, 1] \<and>
      list_all (\<lambda>p. \<not> is_marker frame p \<or> (1 \<le> p \<and> frame ! (p - 1) = 0 \<and> p + 4 < length frame))
        [0..<length frame - 2])"

text \<open>
  The frames of AV1 that the partitioner does not re-frame: no OBU is of a dropped type,
  and an OBU with a size field does not end the frame and has the size field that the
  LEB128 writer produces for its payload size.
\<close>

definition obu_kept_as_is :: "leb128_writer \<Rightarrow> byte list \<Rightarrow> obu \<Rightarrow> bool" where
  "obu_kept_as_is write_leb128 frame ob =
     (\<not> obu_dropped ob \<and>
      (\<not> obu_has_size ob \<or>
       (obu_end ob < length frame \<and>
        write_leb128 (obu_payload_size ob) =
          take (obu_payload_index ob - obu_header_end frame (obu_index ob))
            (drop (obu_header_end frame (obu_index ob)) frame))))"

text \<open>The unencrypted header of a VP8 frame: 10 bytes for a key frame, 1 for a delta frame.\<close>

definition vp8_header_bytes :: "byte list \<Rightarrow> nat" where
  "vp8_header_bytes frame = (if even (unat (frame ! 0)) then 10 else 1)"

section \<open>Properties of the start-code scanner\<close>

lemma byte_gt1: "(1 < (w::byte)) \<longleftrightarrow> (w \<noteq> 0 \<and> w \<noteq> 1)"
proof -
  have "(1 < unat w) \<longleftrightarrow> (unat w \<noteq> 0 \<and> unat w \<noteq> 1)" by arith
  moreover have "unat w = 1 \<longleftrightarrow> w = 1" by (simp add: word_unat_eq_iff)
  ultimately show ?thesis
    by (simp add: word_less_nat_alt unat_eq_0)
qed

lemma find_upt_step:
  "List.find P [i..<m] = (if i < m then (if P i then Some i else List.find P [Suc i..<m]) else None)"
  by (simp add: upt_conv_Cons)

lemma find_upt_skip:
  assumes "\<And>q. i \<le> q \<Longrightarrow> q < j \<Longrightarrow> q < m \<Longrightarrow> \<not> P q"
  shows "List.find P [i..<m] = List.find P [i + (j - i)..<m]"
  using assms
proof (induction "j - i" arbitrary: i)
  case 0
  then show ?case by simp
next
  case (Suc k)
  then have ij: "i < j" and k: "k = j - Suc i" by arith+
  have step: "List.find P [i..<m] = List.find P [Suc i..<m]"
  proof (cases "i < m")
    case True
    with Suc.prems[of i] ij show ?thesis by (subst find_upt_step) simp
  next
    case False
    then show ?thesis by simp
  qed
  have "List.find P [Suc i..<m] = List.find P [Suc i + (j - Suc i)..<m]"
    using Suc.hyps(1)[OF k] Suc.prems by simp
  with step ij show ?case by simp
qed

lemma FindNextH26XNaluIndex_loop_find:
  "3 \<le> bufferSize \<Longrightarrow> FindNextH26XNaluIndex_loop buffer bufferSize i =
     map_option (marker_result buffer) (List.find (is_marker buffer) [i..<bufferSize - 3])"
proof (induction buffer bufferSize i rule: FindNextH26XNaluIndex_loop.induct)
  case (1 buffer bufferSize i)
  let ?m = "bufferSize - 3"
  let ?P = "is_marker buffer"
  show ?case
  proof (cases "i < ?m")
    case False
    then show ?thesis
      by (subst FindNextH26XNaluIndex_loop.simps) (simp add: kH26XNaluShortStartSequenceSize_def)
  next
    case im: True
    consider (gt) "1 < buffer ! (i + 2)" | (one) "buffer ! (i + 2) = 1" | (zero) "buffer ! (i + 2) = 0"
      using byte_gt1 by blast
    then show ?thesis
    proof cases
      case gt
      then have ne: "buffer ! (i + 2) \<noteq> 0" "buffer ! (i + 2) \<noteq> 1" using byte_gt1 by auto
      have "\<not> ?P q" if "i \<le> q" "q < i + 3" for q
      proof -
        from that have "q = i \<or> q = i + 1 \<or> q = i + 2" by arith
        with ne show ?thesis by (auto simp: is_marker_def add.commute numeral_2_eq_2 numeral_3_eq_3)
      qed
      then have "List.find ?P [i..<?m] = List.find ?P [i + 3..<?m]"
        using find_upt_skip[of i "i + 3" ?m ?P] by simp
      moreover have "FindNextH26XNaluIndex_loop buffer bufferSize i = FindNextH26XNaluIndex_loop buffer bufferSize (i + 3)"
        using im gt by (subst FindNextH26XNaluIndex_loop.simps) (simp add: kH26XNaluShortStartSequenceSize_def)
      ultimately show ?thesis
        using "1.IH"(1)[OF _ gt] im "1.prems" by (simp add: kH26XNaluShortStartSequenceSize_def)
    next
      case one
      show ?thesis
      proof (cases "buffer ! (i + 1) = 0 \<and> buffer ! i = 0")
        case True
        then have "?P i" using one by (simp add: is_marker_def)
        then have "List.find ?P [i..<?m] = Some i" using im by (subst find_upt_step) simp
        moreover have "FindNextH26XNaluIndex_loop buffer bufferSize i = Some (marker_result buffer i)"
          using im one True
          by (subst FindNextH26XNaluIndex_loop.simps)
             (simp add: kH26XNaluShortStartSequenceSize_def marker_result_def marker_len_def Let_def)
        ultimately show ?thesis by simp
      next
        case False
        have "\<not> ?P q" if "i \<le> q" "q < i + 3" for q
        proof -
          from that have "q = i \<or> q = i + 1 \<or> q = i + 2" by arith
          with one False show ?thesis by (auto simp: is_marker_def add.commute numeral_2_eq_2 numeral_3_eq_3)
        qed
        then have "List.find ?P [i..<?m] = List.find ?P [i + 3..<?m]"
          using find_upt_skip[of i "i + 3" ?m ?P] by simp
        moreover have "FindNextH26XNaluIndex_loop buffer bufferSize i = FindNextH26XNaluIndex_loop buffer bufferSize (i + 3)"
          using im one False by (subst FindNextH26XNaluIndex_loop.simps) (auto simp add: kH26XNaluShortStartSequenceSize_def)
        moreover have "\<not> 1 < buffer ! (i + 2)" using one by simp
        ultimately show ?thesis
          using "1.IH"(2)[OF _ _ one False] im "1.prems" by (simp add: kH26XNaluShortStartSequenceSize_def)
      qed
    next
      case zero
      then have "\<not> ?P i" by (simp add: is_marker_def)
      then have "List.find ?P [i..<?m] = List.find ?P [i + 1..<?m]"
        using im by (subst find_upt_step) simp
      moreover have "FindNextH26XNaluIndex_loop buffer bufferSize i = FindNextH26XNaluIndex_loop buffer bufferSize (i + 1)"
        using im zero by (subst FindNextH26XNaluIndex_loop.simps) (simp add: kH26XNaluShortStartSequenceSize_def)
      moreover have "\<not> 1 < buffer ! (i + 2)" "buffer ! (i + 2) \<noteq> 1" using zero by simp_all
      ultimately show ?thesis
        using "1.IH"(3)[OF _ _ _] im "1.prems" by (simp add: kH26XNaluShortStartSequenceSize_def)
    qed
  qed
qed

lemma FindNextH26XNaluIndex_find:
  "FindNextH26XNaluIndex buffer bufferSize searchStartIndex =
     map_option (marker_result buffer)
       (List.find (is_marker buffer) [searchStartIndex..<bufferSize - 3])"
  by (simp add: FindNextH26XNaluIndex_def kH26XNaluShortStartSequenceSize_def
      FindNextH26XNaluIndex_loop_find)

lemma FindNextH26XNaluIndex_None_iff:
  "FindNextH26XNaluIndex buffer bufferSize s = None \<longleftrightarrow>
     (\<forall>p. s \<le> p \<and> p + 3 < bufferSize \<longrightarrow> \<not> is_marker buffer p)"
  by (auto simp: FindNextH26XNaluIndex_find find_None_iff)

lemma FindNextH26XNaluIndex_Some_iff:
  "FindNextH26XNaluIndex buffer bufferSize s = Some r \<longleftrightarrow>
     (\<exists>p. s \<le> p \<and> p + 3 < bufferSize \<and> is_marker buffer p \<and>
          (\<forall>q. s \<le> q \<and> q < p \<longrightarrow> \<not> is_marker buffer q) \<and>
          r = (p + 3, marker_len buffer p))"
proof -
  have "List.find (is_marker buffer) [s..<bufferSize - 3] = Some p \<longleftrightarrow>
        (s \<le> p \<and> p + 3 < bufferSize \<and> is_marker buffer p \<and>
          (\<forall>q. s \<le> q \<and> q < p \<longrightarrow> \<not> is_marker buffer q))" for p
  proof -
    have "(\<exists>i<bufferSize - 3 - s. is_marker buffer ([s..<bufferSize - 3] ! i) \<and> p = [s..<bufferSize - 3] ! i \<and>
             (\<forall>j<i. \<not> is_marker buffer ([s..<bufferSize - 3] ! j))) \<longleftrightarrow>
          (s \<le> p \<and> p + 3 < bufferSize \<and> is_marker buffer p \<and>
          (\<forall>q. s \<le> q \<and> q < p \<longrightarrow> \<not> is_marker buffer q))" (is "?L \<longleftrightarrow> ?R")
    proof
      assume ?L
      then obtain i where i: "i < bufferSize - 3 - s" "is_marker buffer (s + i)" "p = s + i"
        "\<forall>j<i. \<not> is_marker buffer (s + j)" by auto
      have "\<not> is_marker buffer q" if "s \<le> q" "q < p" for q
        using i(4)[rule_format, of "q - s"] that i(3) by simp
      with i show ?R by auto
    next
      assume R: ?R
      then have "p - s < bufferSize - 3 - s" "is_marker buffer (s + (p - s))" "p = s + (p - s)" by auto
      moreover have "\<forall>j<p - s. \<not> is_marker buffer (s + j)" using R by auto
      ultimately show ?L by (intro exI[of _ "p - s"]) auto
    qed
    then show ?thesis by (simp add: find_Some_iff)
  qed
  then show ?thesis
    by (auto simp: FindNextH26XNaluIndex_find marker_result_def)
qed

text \<open>
  Claim C2, as stated: the scanner returns none exactly when no 00 00 01 marker exists from
  the start offset onward. This fails for a marker that ends the buffer: the three bytes
  00 00 01 are a complete marker at offset 0 of a 3-byte buffer, and the scanner returns
  none, because its loop only visits positions \<open>i < bufferSize - 3\<close>.
\<close>

theorem FindNextH26XNaluIndex_trailing_marker_counterexample:
  "is_marker [0, 0, 1] 0 \<and> 0 + 3 \<le> length [0, 0, 1 :: byte] \<and>
   FindNextH26XNaluIndex [0, 0, 1] 3 0 = None"
  by (simp add: is_marker_def FindNextH26XNaluIndex_def kH26XNaluShortStartSequenceSize_def
      FindNextH26XNaluIndex_loop.simps)

text \<open>
  Claim C2, amended: for every buffer, buffer length and start offset, the scanner returns
  the offset just past the earliest 00 00 01 marker that starts at or after the start offset
  and is followed by at least one more byte of the buffer (\<open>p + 3 < bufferSize\<close>),
  together with the marker's length (4 if the byte before the marker is 00, otherwise 3);
  it returns none exactly when no such marker exists, in particular whenever fewer than 3
  bytes remain. No marker before the reported one is skipped.
\<close>

theorem FindNextH26XNaluIndex_earliest_marker:
  "(FindNextH26XNaluIndex buffer bufferSize s = None \<longleftrightarrow>
      (\<forall>p. s \<le> p \<and> p + 3 < bufferSize \<longrightarrow> \<not> is_marker buffer p)) \<and>
   (\<forall>r. FindNextH26XNaluIndex buffer bufferSize s = Some r \<longrightarrow>
      (\<exists>p. s \<le> p \<and> p + 3 < bufferSize \<and> is_marker buffer p \<and>
           (\<forall>q. s \<le> q \<and> q < p \<longrightarrow> \<not> is_marker buffer q) \<and>
           r = (p + 3, marker_len buffer p))) \<and>
   (bufferSize < s + 3 \<longrightarrow> FindNextH26XNaluIndex buffer bufferSize s = None)"
proof (intro conjI allI impI)
  show "FindNextH26XNaluIndex buffer bufferSize s = None \<longleftrightarrow>
      (\<forall>p. s \<le> p \<and> p + 3 < bufferSize \<longrightarrow> \<not> is_marker buffer p)"
    by (rule FindNextH26XNaluIndex_None_iff)
next
  fix r
  assume "FindNextH26XNaluIndex buffer bufferSize s = Some r"
  then show "\<exists>p. s \<le> p \<and> p + 3 < bufferSize \<and> is_marker buffer p \<and>
           (\<forall>q. s \<le> q \<and> q < p \<longrightarrow> \<not> is_marker buffer q) \<and>
           r = (p + 3, marker_len buffer p)"
    by (simp only: FindNextH26XNaluIndex_Some_iff)
next
  assume "bufferSize < s + 3"
  then have "\<not> (s \<le> p \<and> p + 3 < bufferSize)" for p by arith
  then show "FindNextH26XNaluIndex buffer bufferSize s = None"
    by (simp only: FindNextH26XNaluIndex_None_iff) blast
qed

theorem FindNextH26XNaluIndex_earliest_marker_witness:
  "FindNextH26XNaluIndex [7, 0, 0, 0, 1, 5, 2, 2, 0, 0, 1, 9] 12 0 = Some (5, 4) \<and>
   (\<exists>p. 0 \<le> p \<and> p + 3 < 12 \<and> is_marker [7, 0, 0, 0, 1, 5, 2, 2, 0, 0, 1, 9] p \<and>
        (\<forall>q. 0 \<le> q \<and> q < p \<longrightarrow> \<not> is_marker [7, 0, 0, 0, 1, 5, 2, 2, 0, 0, 1, 9] q) \<and>
        (5, 4) = (p + 3, marker_len [7, 0, 0, 0, 1, 5, 2, 2, 0, 0, 1, 9] p)) \<and>
   FindNextH26XNaluIndex [7, 0, 0, 0, 1, 5, 2, 2, 0, 0, 1, 9] 12 10 = None"
proof -
  have e: "FindNextH26XNaluIndex [7, 0, 0, 0, 1, 5, 2, 2, 0, 0, 1, 9] 12 0 = Some (5, 4)"
    by (simp add: FindNextH26XNaluIndex_def kH26XNaluShortStartSequenceSize_def
        FindNextH26XNaluIndex_loop.simps)
  have n: "(12::nat) < 10 + 3" by simp
  from FindNextH26XNaluIndex_earliest_marker
         [of "[7, 0, 0, 0, 1, 5, 2, 2, 0, 0, 1, 9]" 12 0]
       FindNextH26XNaluIndex_earliest_marker
         [of "[7, 0, 0, 0, 1, 5, 2, 2, 0, 0, 1, 9]" 12 10] e n
  show ?thesis by blast
qed

section \<open>Bit fields of header bytes\<close>

lemma h265_type_bits: "unat (drop_bit 1 ((b::byte) AND 0x7E)) = (unat b div 2) mod 64"
proof -
  have m: "(0x7E::byte) = 2 * mask 6" by (simp add: mask_eq_exp_minus_1)
  have "drop_bit 1 (b AND 2 * mask 6) = take_bit 6 (drop_bit 1 b)"
    apply (rule bit_word_eqI)
    apply (auto simp add: bit_and_iff bit_drop_bit_eq bit_take_bit_iff bit_push_bit_iff bit_mask_iff bit_double_Suc_iff)
    done
  then have "drop_bit 1 (b AND 0x7E) = take_bit 6 (drop_bit 1 b)" by (simp only: m)
  then show ?thesis
    by (simp add: unsigned_take_bit_eq unsigned_drop_bit_eq take_bit_eq_mod drop_bit_eq_div unat_mod unat_div)
qed

lemma h264_type_bits: "unat ((b::byte) AND 0x1F) = unat b mod 32"
proof -
  have m: "(0x1F::byte) = mask 5" by (simp add: mask_eq_exp_minus_1)
  have "b AND 0x1F = take_bit 5 b"
    unfolding m by (rule bit_word_eqI) (auto simp: bit_simps)
  then show ?thesis
    by (simp add: unsigned_take_bit_eq take_bit_eq_mod unat_mod)
qed

lemma av1_type_bits: "unat (drop_bit 3 ((b::byte) AND 0x78)) = (unat b div 8) mod 16"
proof -
  have m: "(0x78::byte) = push_bit 3 (mask 4)" by (simp add: mask_eq_exp_minus_1)
  have "drop_bit 3 (b AND push_bit 3 (mask 4)) = take_bit 4 (drop_bit 3 b)"
    apply (rule bit_word_eqI)
    apply (auto simp add: bit_and_iff bit_drop_bit_eq bit_take_bit_iff bit_push_bit_iff bit_mask_iff bit_double_Suc_iff)
    done
  then have "drop_bit 3 (b AND 0x78) = take_bit 4 (drop_bit 3 b)" by (simp only: m)
  then show ?thesis
    by (simp add: unsigned_take_bit_eq unsigned_drop_bit_eq take_bit_eq_mod drop_bit_eq_div unat_mod unat_div)
qed

lemma bit_test: "((b::byte) AND push_bit k 1 = 0) \<longleftrightarrow> \<not> bit b k"
  by (simp add: and_exp_eq_0_iff_not_bit push_bit_of_1)

section \<open>The H.264 and H.265 loops walk the NAL units\<close>

lemma marker_no_overlap:
  "is_marker buffer p \<Longrightarrow> \<not> is_marker buffer (p + 1) \<and> \<not> is_marker buffer (p + 2)"
  by (auto simp: is_marker_def numeral_2_eq_2 add.commute)

lemma filter_upt_skip:
  assumes "\<And>q. i \<le> q \<Longrightarrow> q < j \<Longrightarrow> \<not> P q"
  shows "filter P [i..<m] = filter P [i + (j - i)..<m]"
  using assms
proof (induction "j - i" arbitrary: i)
  case 0
  then show ?case by simp
next
  case (Suc k)
  then have ij: "i < j" and k: "k = j - Suc i" by arith+
  have step: "filter P [i..<m] = filter P [Suc i..<m]"
  proof (cases "i < m")
    case True
    with Suc.prems[of i] ij show ?thesis by (simp add: upt_conv_Cons)
  next
    case False
    then show ?thesis by simp
  qed
  have "filter P [Suc i..<m] = filter P [Suc i + (j - Suc i)..<m]"
    using Suc.hyps(1)[OF k] Suc.prems by simp
  with step ij show ?case by simp
qed

lemma find_Some_upt:
  "List.find P [s..<m] = Some p \<longleftrightarrow> (s \<le> p \<and> p < m \<and> P p \<and> (\<forall>q. s \<le> q \<and> q < p \<longrightarrow> \<not> P q))"
proof -
  have "(\<exists>i<m - s. P ([s..<m] ! i) \<and> p = [s..<m] ! i \<and> (\<forall>j<i. \<not> P ([s..<m] ! j))) \<longleftrightarrow>
        (s \<le> p \<and> p < m \<and> P p \<and> (\<forall>q. s \<le> q \<and> q < p \<longrightarrow> \<not> P q))" (is "?L \<longleftrightarrow> ?R")
  proof
    assume ?L
    then obtain i where i: "i < m - s" "P (s + i)" "p = s + i" "\<forall>j<i. \<not> P (s + j)" by auto
    have "\<not> P q" if "s \<le> q" "q < p" for q
      using i(4)[rule_format, of "q - s"] that i(3) by simp
    with i show ?R by auto
  next
    assume R: ?R
    then have "p - s < m - s" "P (s + (p - s))" "p = s + (p - s)" by auto
    moreover have "\<forall>j<p - s. \<not> P (s + j)" using R by auto
    ultimately show ?L by (intro exI[of _ "p - s"]) auto
  qed
  then show ?thesis by (simp add: find_Some_iff)
qed

lemma walked_units_from_None:
  assumes "List.find (is_marker frame) [s..<length frame - 3] = None"
  shows "walked_units_from frame s = []"
proof -
  have "\<not> is_marker frame q" if "s \<le> q" "q < length frame - 4" for q
    using assms that by (auto simp: find_None_iff)
  then show ?thesis by (auto simp: walked_units_from_def filter_empty_conv)
qed

lemma walked_units_from_Some:
  assumes "List.find (is_marker frame) [s..<length frame - 3] = Some p"
  shows "walked_units_from frame s =
           (if p + 3 < length frame - 1 then (p + 3) # walked_units_from frame (p + 3) else [])"
proof -
  let ?P = "is_marker frame"
  let ?n = "length frame"
  from assms have p: "s \<le> p" "p < ?n - 3" "?P p" "\<And>q. s \<le> q \<Longrightarrow> q < p \<Longrightarrow> \<not> ?P q"
    by (auto simp: find_Some_upt)
  have a: "filter ?P [s..<?n - 4] = filter ?P [p..<?n - 4]"
    using filter_upt_skip[of s p ?P "?n - 4"] p by simp
  show ?thesis
  proof (cases "p + 3 < ?n - 1")
    case True
    then have "p < ?n - 4" by arith
    then have "filter ?P [p..<?n - 4] = p # filter ?P [Suc p..<?n - 4]"
      using p(3) by (simp add: upt_conv_Cons)
    moreover have "filter ?P [Suc p..<?n - 4] = filter ?P [Suc p + (p + 3 - Suc p)..<?n - 4]"
    proof (rule filter_upt_skip)
      fix q assume "Suc p \<le> q" "q < p + 3"
      then have "q = p + 1 \<or> q = p + 2" by arith
      then show "\<not> ?P q" using marker_no_overlap[OF p(3)] by auto
    qed
    moreover note True a
    ultimately show ?thesis by (simp add: walked_units_from_def eval_nat_numeral)
  next
    case False
    then have "[p..<?n - 4] = []" using p(2) by simp
    with a False show ?thesis by (simp add: walked_units_from_def)
  qed
qed

lemma nextNaluStart_unit_end:
  "nextNaluStart frame (FindNextH26XNaluIndex frame (length frame) f) = unit_end frame f"
  by (auto simp: nextNaluStart_def unit_end_def FindNextH26XNaluIndex_find marker_result_def
      marker_len_def size_sub_def split: option.splits)

lemma process_frame_h265_loop_walk:
  "process_frame_h265_loop frame (FindNextH26XNaluIndex frame (length frame) s) calls =
     (calls @ fst (emit_units (h265_nal_unit frame) (walked_units_from frame s)),
      snd (emit_units (h265_nal_unit frame) (walked_units_from frame s)))"
proof (induction "length frame - s" arbitrary: s calls rule: less_induct)
  case less
  let ?n = "length frame"
  show ?case
  proof (cases "List.find (is_marker frame) [s..<?n - 3]")
    case None
    then show ?thesis
      by (subst process_frame_h265_loop.simps)
         (simp add: FindNextH26XNaluIndex_find walked_units_from_None)
  next
    case (Some p)
    then have p: "s \<le> p" "p < ?n - 3" by (auto simp: find_Some_upt)
    have fn: "FindNextH26XNaluIndex frame ?n s = Some (p + 3, marker_len frame p)"
      using Some by (simp add: FindNextH26XNaluIndex_find marker_result_def)
    show ?thesis
    proof (cases "p + 3 < ?n - 1")
      case False
      then show ?thesis
        using Some fn
        by (subst process_frame_h265_loop.simps) (simp add: walked_units_from_Some)
    next
      case True
      have lt: "?n - (p + 3) < ?n - s" using p by arith
      note IH = less.hyps[OF lt]
      show ?thesis
        using True fn
        apply (subst process_frame_h265_loop.simps)
        apply (simp add: walked_units_from_Some[OF Some] Let_def IH nextNaluStart_unit_end
            h265_nal_unit_def h265_nal_type_def)
        done
    qed
  qed
qed

lemma process_frame_h264_loop_walk:
  "process_frame_h264_loop frame (FindNextH26XNaluIndex frame (length frame) s) calls =
     (calls @ fst (emit_units (h264_nal_unit frame) (walked_units_from frame s)),
      snd (emit_units (h264_nal_unit frame) (walked_units_from frame s)))"
proof (induction "length frame - s" arbitrary: s calls rule: less_induct)
  case less
  let ?n = "length frame"
  show ?case
  proof (cases "List.find (is_marker frame) [s..<?n - 3]")
    case None
    then show ?thesis
      by (subst process_frame_h264_loop.simps)
         (simp add: FindNextH26XNaluIndex_find walked_units_from_None)
  next
    case (Some p)
    then have p: "s \<le> p" "p < ?n - 3" by (auto simp: find_Some_upt)
    have fn: "FindNextH26XNaluIndex frame ?n s = Some (p + 3, marker_len frame p)"
      using Some by (simp add: FindNextH26XNaluIndex_find marker_result_def)
    show ?thesis
    proof (cases "p + 3 < ?n - 1")
      case False
      then show ?thesis
        using Some fn
        by (subst process_frame_h264_loop.simps) (simp add: walked_units_from_Some)
    next
      case True
      have lt: "?n - (p + 3) < ?n - s" using p by arith
      note IH = less.hyps[OF lt]
      show ?thesis
        using True fn
        apply (subst process_frame_h264_loop.simps)
        apply (simp add: walked_units_from_Some[OF Some] Let_def IH nextNaluStart_unit_end
            h264_nal_unit_def h264_nal_type_def h264_pps_bytes_def split: sum.splits)
        done
    qed
  qed
qed

lemma process_frame_h264_walk:
  "4 \<le> length frame \<Longrightarrow>
   process_frame_h264 frame = emit_units (h264_nal_unit frame) (walked_units frame)"
  by (simp add: process_frame_h264_def process_frame_h264_loop_walk walked_units_def
      kH26XNaluShortStartSequenceSize_def kH264NalUnitHeaderSize_def)

lemma process_frame_h265_walk:
  "5 \<le> length frame \<Longrightarrow>
   process_frame_h265 frame = emit_units (h265_nal_unit frame) (walked_units frame)"
  by (simp add: process_frame_h265_def process_frame_h265_loop_walk walked_units_def
      kH26XNaluShortStartSequenceSize_def kH265NalUnitHeaderSize_def)

section \<open>Units in the words of the specification\<close>

lemma emit_units_cong:
  "(\<And>f. f \<in> set fs \<Longrightarrow> u f = v f) \<Longrightarrow> emit_units u fs = emit_units v fs"
  by (induction fs) (auto split: prod.splits option.splits)

lemma emit_units_no_error:
  "(\<And>f. f \<in> set fs \<Longrightarrow> snd (u f) = None) \<Longrightarrow>
   emit_units u fs = (concat (map (\<lambda>f. fst (u f)) fs), returns True)"
proof (induction fs)
  case Nil
  then show ?case by simp
next
  case (Cons a fs)
  have "snd (u a) = None" using Cons.prems by simp
  then obtain cs where "u a = (cs, None)" by (cases "u a") simp
  then show ?case using Cons by simp
qed

lemma walked_units_from_marker:
  "f \<in> set (walked_units_from frame s) \<longleftrightarrow>
     (\<exists>p. f = p + 3 \<and> s \<le> p \<and> p < length frame - 4 \<and> is_marker frame p)"
  by (auto simp: walked_units_from_def)

lemma unit_end_ge:
  assumes "is_marker frame p" "p + 3 < length frame"
  shows "p + 3 \<le> unit_end frame (p + 3)"
proof (cases "List.find (is_marker frame) [p + 3..<length frame - 3]")
  case None
  then show ?thesis using assms by (simp add: unit_end_def)
next
  case (Some q)
  then have q: "p + 3 \<le> q" "is_marker frame q" by (auto simp: find_Some_upt)
  have "frame ! (p + 2) \<noteq> 0" using assms(1) by (simp add: is_marker_def)
  then have "q = p + 3 \<Longrightarrow> frame ! (q - 1) \<noteq> 0" by (simp add: numeral_3_eq_3)
  then have "p + 3 \<le> q + 3 - marker_len frame q"
    using q(1) by (cases "q = p + 3") (auto simp: marker_len_def)
  then show ?thesis using Some by (simp add: unit_end_def)
qed

lemma unit_end_le: "unit_end frame f \<le> length frame"
  by (auto simp: unit_end_def find_Some_upt marker_len_def split: option.splits)

lemma walked_unit_bounds:
  assumes "f \<in> set (walked_units frame)"
  shows "f \<le> unit_end frame f" "f + 1 < length frame" "3 \<le> f"
proof -
  from assms obtain p where p: "f = p + 3" "p < length frame - 4" "is_marker frame p"
    by (auto simp: walked_units_def walked_units_from_marker)
  then show "f \<le> unit_end frame f" using unit_end_ge[of frame p] by simp
  from p show "f + 1 < length frame" by simp
  from p show "3 \<le> f" by simp
qed

lemma byte_less_iff: "(a::byte) < b \<longleftrightarrow> unat a < unat b"
  by (rule word_less_nat_alt)

lemma h265_nal_unit_spec:
  assumes "f \<le> unit_end frame f" "h265_unit_fits frame f"
  shows "h265_nal_unit frame f = (h265_unit_calls frame f, None)"
proof -
  have t: "unat (h265_nal_type frame f) = h265_unit_type frame f"
    unfolding h265_nal_type_def h265_unit_type_def kH265NalHeaderTypeMask_def
    by (rule h265_type_bits)
  have lt: "h265_nal_type frame f < kH265NalTypeVclCutoff \<longleftrightarrow> h265_unit_type frame f < 32"
    by (simp add: word_less_nat_alt t kH265NalTypeVclCutoff_def)
  show ?thesis
    using assms
    by (auto simp: h265_nal_unit_def h265_unit_calls_def lt h265_unit_fits_def size_sub_def
        kH26XNaluLongStartCode_def kH265NalUnitHeaderSize_def)
qed

lemma h264_nal_unit_spec:
  assumes "f \<le> unit_end frame f" "h264_unit_fits frame f"
  shows "h264_nal_unit frame f = h264_unit_spec frame f"
proof -
  have t: "unat (h264_nal_type frame f) = h264_unit_type frame f"
    unfolding h264_nal_type_def h264_unit_type_def kH264NalHeaderTypeMask_def
    by (rule h264_type_bits)
  have e1: "h264_nal_type frame f = kH264NalTypeSlice \<longleftrightarrow> h264_unit_type frame f = 1"
    by (simp add: word_unat_eq_iff t kH264NalTypeSlice_def)
  have e5: "h264_nal_type frame f = kH264NalTypeIdr \<longleftrightarrow> h264_unit_type frame f = 5"
    by (simp add: word_unat_eq_iff t kH264NalTypeIdr_def)
  show ?thesis
    using assms
    by (auto simp: h264_nal_unit_def h264_unit_spec_def e1 e5 h264_unit_fits_def size_sub_def
        h264_pps_bytes_def kH26XNaluLongStartCode_def kH264NalUnitHeaderSize_def
        split: sum.splits)
qed

lemmas scanner_eval = FindNextH26XNaluIndex_def kH26XNaluShortStartSequenceSize_def
  FindNextH26XNaluIndex_loop.simps

lemmas golomb_eval = BytesCoveringH264PPS_def BytesCoveringH264PPS_loop.simps
  size_mul_def size_add_def size_max_def
  kEmulationPreventionByte_def Let_def

lemmas h264_eval = process_frame_h264_def process_frame_h264_loop.simps scanner_eval golomb_eval
  nextNaluStart_def kH264NalHeaderTypeMask_def kH264NalTypeSlice_def kH264NalTypeIdr_def
  kH264NalUnitHeaderSize_def kH26XNaluLongStartCode_def size_sub_def size_max_def

lemmas h265_eval = process_frame_h265_def process_frame_h265_loop.simps scanner_eval Let_def
  nextNaluStart_def kH265NalHeaderTypeMask_def kH265NalTypeVclCutoff_def
  kH265NalUnitHeaderSize_def kH26XNaluLongStartCode_def size_sub_def size_max_def






section \<open>Claims about the H.264 and H.265 partitioners\<close>

text \<open>
  Claim C9: an H.264 frame shorter than 4 bytes and an H.265 frame shorter than 5 bytes
  make the partitioner throw the length error before any call to the accumulator.
\<close>

theorem short_frame_length_exception:
  "(length frame < 4 \<longrightarrow> process_frame_h264 frame = ([], throws length_exception)) \<and>
   (length frame < 5 \<longrightarrow> process_frame_h265 frame = ([], throws length_exception))"
  by (simp add: process_frame_h264_def process_frame_h265_def
      kH26XNaluShortStartSequenceSize_def kH264NalUnitHeaderSize_def kH265NalUnitHeaderSize_def)

theorem short_frame_length_exception_witness:
  "length [0, 0, 1 :: byte] < 4 \<and>
   process_frame_h264 [0, 0, 1] = ([], throws length_exception) \<and>
   length [0, 0, 1, 2 :: byte] < 5 \<and>
   process_frame_h265 [0, 0, 1, 2] = ([], throws length_exception)"
proof -
  have a: "length [0, 0, 1 :: byte] < 4" and b: "length [0, 0, 1, 2 :: byte] < 5" by simp_all
  from short_frame_length_exception[of "[0, 0, 1]"] a
  have "process_frame_h264 [0, 0, 1] = ([], throws length_exception)" by blast
  moreover from short_frame_length_exception[of "[0, 0, 1, 2]"] b
  have "process_frame_h265 [0, 0, 1, 2] = ([], throws length_exception)" by blast
  ultimately show ?thesis using a b by blast
qed

text \<open>
  Claim C7, as stated: every unit the partitioner walks is emitted, preceded by a start
  code. In the frame below the scanner finds a second unit at index 8, of type 33, whose
  only byte is the last byte of the frame. The frame is accepted, and the loop guard
  \<open>first < frame.size() - 1\<close> ends the walk before that unit: neither a start code nor
  the unit is emitted for it.
\<close>

theorem process_frame_h265_trailing_unit_counterexample:
  "FindNextH26XNaluIndex [0, 0, 1, 0x40, 1, 0, 0, 1, 0x42] 9 5 = Some (8, 3) \<and>
   h265_unit_type [0, 0, 1, 0x40, 1, 0, 0, 1, 0x42] 8 = 33 \<and>
   process_frame_h265 [0, 0, 1, 0x40, 1, 0, 0, 1, 0x42] =
     ([add_unencrypted_bytes (local_bytes [0, 0, 0, 1]) 4,
       add_unencrypted_bytes (frame_bytes 3) 2], returns True)"
  by (simp add: h265_eval h265_unit_type_def)

text \<open>
  Claim C7, amended: for every H.265 frame of at least 5 bytes in which the 2-byte header
  of every walked unit of type below 32 ends at or before that unit's boundary, the
  partitioner reports success, and its calls are, for each NAL unit that starts at least
  two bytes before the end of the frame, in frame order: the 4-byte start code 00 00 00 01
  unencrypted; then, for a unit whose 6-bit type (bits 1 to 6 of the first header byte) is
  below 32, the 2-byte header unencrypted and the payload up to the next unit boundary (or
  frame end) encrypted; for a unit of type 32 or above, the whole unit unencrypted.
\<close>

theorem process_frame_h265_units:
  assumes "5 \<le> length frame"
    and "\<forall>f \<in> set (walked_units frame). h265_unit_fits frame f"
  shows "process_frame_h265 frame =
           (concat (map (h265_unit_calls frame) (walked_units frame)), returns True)"
proof -
  have eq: "h265_nal_unit frame f = (h265_unit_calls frame f, None)"
    if "f \<in> set (walked_units frame)" for f
    using that assms(2) walked_unit_bounds(1)[OF that] by (simp add: h265_nal_unit_spec)
  have "process_frame_h265 frame = emit_units (h265_nal_unit frame) (walked_units frame)"
    using assms(1) by (rule process_frame_h265_walk)
  also have "\<dots> = (concat (map (\<lambda>f. fst (h265_nal_unit frame f)) (walked_units frame)), returns True)"
    by (rule emit_units_no_error) (simp add: eq)
  also have "map (\<lambda>f. fst (h265_nal_unit frame f)) (walked_units frame) =
             map (h265_unit_calls frame) (walked_units frame)"
    by (rule map_cong) (simp_all add: eq)
  finally show ?thesis .
qed

theorem process_frame_h265_units_witness:
  "5 \<le> length [0, 0, 0, 1, 2, 1, 7, 7, 0, 0, 0, 1, 0x40, 1, 5 :: byte] \<and>
   walked_units [0, 0, 0, 1, 2, 1, 7, 7, 0, 0, 0, 1, 0x40, 1, 5] = [4, 12] \<and>
   h265_unit_fits [0, 0, 0, 1, 2, 1, 7, 7, 0, 0, 0, 1, 0x40, 1, 5] 4 \<and>
   h265_unit_fits [0, 0, 0, 1, 2, 1, 7, 7, 0, 0, 0, 1, 0x40, 1, 5] 12 \<and>
   process_frame_h265 [0, 0, 0, 1, 2, 1, 7, 7, 0, 0, 0, 1, 0x40, 1, 5] =
     ([add_unencrypted_bytes (local_bytes [0, 0, 0, 1]) 4,
       add_unencrypted_bytes (frame_bytes 4) 2,
       add_encrypted_bytes (frame_bytes 6) 2,
       add_unencrypted_bytes (local_bytes [0, 0, 0, 1]) 4,
       add_unencrypted_bytes (frame_bytes 12) 3], returns True)"
proof -
  let ?F = "[0, 0, 0, 1, 2, 1, 7, 7, 0, 0, 0, 1, 0x40, 1, 5] :: byte list"
  have len: "5 \<le> length ?F" by simp
  have units: "walked_units ?F = [4, 12]" by code_simp
  have f4: "h265_unit_fits ?F 4" and f12: "h265_unit_fits ?F 12" by code_simp+
  have fits: "\<forall>f \<in> set (walked_units ?F). h265_unit_fits ?F f"
    using f4 f12 by (simp add: units)
  have calls: "concat (map (h265_unit_calls ?F) (walked_units ?F)) =
     [add_unencrypted_bytes (local_bytes [0, 0, 0, 1]) 4,
       add_unencrypted_bytes (frame_bytes 4) 2,
       add_encrypted_bytes (frame_bytes 6) 2,
       add_unencrypted_bytes (local_bytes [0, 0, 0, 1]) 4,
       add_unencrypted_bytes (frame_bytes 12) 3]" by code_simp
  from process_frame_h265_units[OF len fits] calls len units f4 f12 show ?thesis by simp
qed

text \<open>
  Claim C4, as stated: every unit found by the scanner gets a start code and is emitted.
  In the 4-byte frame 00 00 01 67 the scanner finds the unit at index 3 (type 7); the frame
  is accepted, and the loop guard \<open>first < frame.size() - 1\<close> ends the walk before
  that unit, so nothing at all is emitted.
\<close>

theorem process_frame_h264_trailing_unit_counterexample:
  "FindNextH26XNaluIndex [0, 0, 1, 0x67] 4 0 = Some (3, 3) \<and>
   h264_unit_type [0, 0, 1, 0x67] 3 = 7 \<and>
   process_frame_h264 [0, 0, 1, 0x67] = ([], returns True)"
  by (simp add: h264_eval h264_unit_type_def)

text \<open>
  Claim C4, amended: for every H.264 frame of at least 4 bytes in which the header and
  Golomb prefix of every walked slice or IDR unit end at or before that unit's boundary,
  the partitioner handles, in frame order, each NAL unit that starts at least two bytes
  before the end of the frame: it first emits the 4-byte start code 00 00 00 01
  unencrypted, whatever the length of the source marker; if the unit's type (low 5 bits of
  the header byte) is 1 or 5 it emits the 1-byte header plus the Golomb-computed prefix
  unencrypted and the remainder up to the next unit boundary (or frame end) encrypted;
  for every other type it emits the whole unit unencrypted. The run reports success
  unless the prefix calculator throws its length error, which ends the run after the
  start code of that unit.
\<close>

theorem process_frame_h264_units:
  assumes "4 \<le> length frame"
    and "\<forall>f \<in> set (walked_units frame). h264_unit_fits frame f"
  shows "process_frame_h264 frame = emit_units (h264_unit_spec frame) (walked_units frame)"
proof -
  have eq: "h264_nal_unit frame f = h264_unit_spec frame f"
    if "f \<in> set (walked_units frame)" for f
    using that assms(2) walked_unit_bounds(1)[OF that] by (simp add: h264_nal_unit_spec)
  have "process_frame_h264 frame = emit_units (h264_nal_unit frame) (walked_units frame)"
    using assms(1) by (rule process_frame_h264_walk)
  also have "\<dots> = emit_units (h264_unit_spec frame) (walked_units frame)"
    by (rule emit_units_cong) (rule eq)
  finally show ?thesis .
qed

theorem process_frame_h264_units_witness:
  "4 \<le> length [0, 0, 1, 0x67, 1, 2, 0, 0, 0, 1, 0x65, 0x88, 1, 2, 3 :: byte] \<and>
   walked_units [0, 0, 1, 0x67, 1, 2, 0, 0, 0, 1, 0x65, 0x88, 1, 2, 3] = [3, 10] \<and>
   h264_unit_fits [0, 0, 1, 0x67, 1, 2, 0, 0, 0, 1, 0x65, 0x88, 1, 2, 3] 3 \<and>
   h264_unit_fits [0, 0, 1, 0x67, 1, 2, 0, 0, 0, 1, 0x65, 0x88, 1, 2, 3] 10 \<and>
   process_frame_h264 [0, 0, 1, 0x67, 1, 2, 0, 0, 0, 1, 0x65, 0x88, 1, 2, 3] =
     ([add_unencrypted_bytes (local_bytes [0, 0, 0, 1]) 4,
       add_unencrypted_bytes (frame_bytes 3) 3,
       add_unencrypted_bytes (local_bytes [0, 0, 0, 1]) 4,
       add_unencrypted_bytes (frame_bytes 10) 4,
       add_encrypted_bytes (frame_bytes 14) 1], returns True)"
proof -
  let ?F = "[0, 0, 1, 0x67, 1, 2, 0, 0, 0, 1, 0x65, 0x88, 1, 2, 3] :: byte list"
  have len: "4 \<le> length ?F" by simp
  have units: "walked_units ?F = [3, 10]" by code_simp
  have t3: "h264_unit_type ?F 3 = 7" and t10: "h264_unit_type ?F 10 = 5" by code_simp+
  have e3: "unit_end ?F 3 = 6" and e10: "unit_end ?F 10 = 15" by code_simp+
  have p10: "BytesCoveringH264PPS (drop (10 + 1) ?F) (length ?F - (10 + 1)) = Inr 3"
  proof -
    have "drop (10 + 1) ?F = [0x88, 1, 2, 3]" by simp
    moreover have "length ?F - (10 + 1) = 4" by simp
    moreover have "BytesCoveringH264PPS [0x88, 1, 2, 3] 4 = Inr 3" by (simp add: golomb_eval)
    ultimately show ?thesis by (simp only:)
  qed
  have f3: "h264_unit_fits ?F 3" by (simp add: h264_unit_fits_def t3 split: sum.split)
  have f10: "h264_unit_fits ?F 10" unfolding h264_unit_fits_def p10 t10 e10 by simp
  have fits: "\<forall>f \<in> set (walked_units ?F). h264_unit_fits ?F f"
    using f3 f10 by (simp add: units)
  have calls: "emit_units (h264_unit_spec ?F) (walked_units ?F) =
     ([add_unencrypted_bytes (local_bytes [0, 0, 0, 1]) 4,
       add_unencrypted_bytes (frame_bytes 3) 3,
       add_unencrypted_bytes (local_bytes [0, 0, 0, 1]) 4,
       add_unencrypted_bytes (frame_bytes 10) 4,
       add_encrypted_bytes (frame_bytes 14) 1], returns True)"
    unfolding units emit_units.simps h264_unit_spec_def t3 t10 e3 e10 p10 by simp
  from process_frame_h264_units[OF len fits] calls len units f3 f10 show ?thesis by simp
qed



section \<open>Claims about the validator\<close>

lemma is_marker_drop:
  "start + p + 2 < length frame \<Longrightarrow> is_marker (drop start frame) p = is_marker frame (start + p)"
  by (simp add: is_marker_def add.assoc)

lemma scan_window:
  assumes "we \<le> length frame" "start \<le> we"
  shows "FindNextH26XNaluIndex (drop start frame) (size_sub we start) 0 \<noteq> None \<longleftrightarrow>
         (\<exists>p. start \<le> p \<and> p + 3 < we \<and> is_marker frame p)"
proof -
  have sub: "size_sub we start = we - start" using assms by (simp add: size_sub_def)
  have "(\<exists>p'. p' + 3 < we - start \<and> is_marker (drop start frame) p') \<longleftrightarrow>
        (\<exists>p. start \<le> p \<and> p + 3 < we \<and> is_marker frame p)" (is "?L \<longleftrightarrow> ?R")
  proof
    assume ?L
    then obtain p' where p': "p' + 3 < we - start" "is_marker (drop start frame) p'" by blast
    then have "start + p' + 2 < length frame" using assms by arith
    with p' have "is_marker frame (start + p')" by (simp add: is_marker_drop)
    moreover have "start \<le> start + p'" "start + p' + 3 < we" using p' by arith+
    ultimately show ?R by blast
  next
    assume ?R
    then obtain p where p: "start \<le> p" "p + 3 < we" "is_marker frame p" by blast
    then have "start + (p - start) + 2 < length frame" using assms by arith
    then have "is_marker (drop start frame) (p - start) = is_marker frame (start + (p - start))"
      by (rule is_marker_drop)
    with p have "is_marker (drop start frame) (p - start)" by simp
    moreover have "p - start + 3 < we - start" using p by arith
    ultimately show ?L by blast
  qed
  then show ?thesis
    by (simp add: FindNextH26XNaluIndex_None_iff sub)
qed

lemma ranges_wf_le: "ranges_wf c rs n \<Longrightarrow> c \<le> n"
proof (induction rs arbitrary: c)
  case Nil
  then show ?case by simp
next
  case (Cons r rs)
  then have "c \<le> offset r" "offset r + range_size r \<le> n" by auto
  then show ?case by simp
qed


lemma validate_loop_spans:
  assumes "ranges_wf c ranges (length frame)"
    and bnd: "length frame + 2 < size_max"
  shows "validate_tail frame (validate_encrypted_frame_loop frame c ranges) \<longleftrightarrow>
         (\<forall>span \<in> set (encrypted_spans c ranges (length frame)). \<forall>p. \<not> marker_in_window frame span p)"
  using assms(1)
proof (induction ranges arbitrary: c)
  case Nil
  let ?n = "length frame"
  from Nil have c: "c \<le> ?n" by simp
  show ?case
  proof (cases "c = ?n")
    case True
    then show ?thesis by (simp add: validate_tail_def)
  next
    case False
    with c have lt: "c < ?n" by simp
    have "FindNextH26XNaluIndex (drop (c - min c 2) frame) (size_sub ?n (c - min c 2)) 0 \<noteq> None \<longleftrightarrow>
          (\<exists>p. c - min c 2 \<le> p \<and> p + 3 < ?n \<and> is_marker frame p)"
      by (rule scan_window) (use c in auto)
    then show ?thesis
      using False lt
      by (auto simp add: validate_tail_def Padding_def kH26XNaluShortStartSequenceSize_def
          marker_in_window_def Let_def)
  qed
next
  case (Cons r rs)
  let ?n = "length frame"
  from Cons.prems have c: "c \<le> offset r" and wf: "ranges_wf (offset r + range_size r) rs ?n"
    by simp_all
  from wf have le: "offset r + range_size r \<le> ?n" by (rule ranges_wf_le)
  have sa1: "size_add (offset r) (range_size r) = offset r + range_size r"
    using le bnd by (simp add: size_add_def)
  have sa2: "size_add (offset r) 2 = offset r + 2"
    using le bnd by (simp add: size_add_def)
  note IH = Cons.IH[OF wf]
  show ?case
  proof (cases "c = offset r")
    case True
    then show ?thesis using IH sa1 by simp
  next
    case False
    with c have lt: "c < offset r" by simp
    let ?start = "c - min c 2"
    let ?end = "min (offset r + 2) ?n"
    have scan: "FindNextH26XNaluIndex (drop ?start frame) (size_sub ?end ?start) 0 \<noteq> None \<longleftrightarrow>
          (\<exists>p. ?start \<le> p \<and> p + 3 < ?end \<and> is_marker frame p)"
      by (rule scan_window) (use c le in auto)
    show ?thesis
    proof (cases "\<exists>p. ?start \<le> p \<and> p + 3 < ?end \<and> is_marker frame p")
      case True
      with scan have "FindNextH26XNaluIndex (drop ?start frame) (size_sub ?end ?start) 0 \<noteq> None"
        by blast
      then have "validate_encrypted_frame_loop frame c (r # rs) = None"
        using False
        by (simp add: Padding_def kH26XNaluShortStartSequenceSize_def Let_def sa2)
      moreover have "\<exists>p. marker_in_window frame (c, offset r) p"
        using True by (simp add: marker_in_window_def)
      ultimately show ?thesis using lt by (auto simp: validate_tail_def)
    next
      case no: False
      with scan have "FindNextH26XNaluIndex (drop ?start frame) (size_sub ?end ?start) 0 = None"
        by blast
      then have "validate_encrypted_frame_loop frame c (r # rs) =
                 validate_encrypted_frame_loop frame (offset r + range_size r) rs"
        using False
        by (simp add: Padding_def kH26XNaluShortStartSequenceSize_def Let_def sa1 sa2)
      moreover have "\<forall>p. \<not> marker_in_window frame (c, offset r) p"
        using no by (simp add: marker_in_window_def)
      ultimately show ?thesis using lt IH by simp
    qed
  qed
qed

lemma validate_encrypted_frame_tail:
  "validate_encrypted_frame codec ranges frame =
     (if codec \<noteq> cd_h264 \<and> codec \<noteq> cd_h265 then True
      else validate_tail frame (validate_encrypted_frame_loop frame 0 ranges))"
  by (simp add: validate_encrypted_frame_def validate_tail_def)

text \<open>
  Claim C3, amended: for an accumulator whose codec is H.264 or H.265 and whose unencrypted
  ranges are ordered, non-overlapping and within the frame, the frame being shorter than
  \<open>2 ^ 64 - 2\<close> bytes, validation fails exactly when the scanner meets a 00 00 01 marker
  in the window of some encrypted span, where the window runs from 2 bytes before the span
  to 2 bytes past its end, clipped to the frame, and the marker is followed by at least
  one more byte of the window; it succeeds otherwise, in particular when the unencrypted
  ranges cover the whole frame contiguously and there is no encrypted span. For every
  other codec it succeeds whatever the frame and the ranges hold.
\<close>

theorem validate_encrypted_frame_spans:
  "(codec \<noteq> cd_h264 \<and> codec \<noteq> cd_h265 \<longrightarrow>
      validate_encrypted_frame codec ranges frame) \<and>
   ((codec = cd_h264 \<or> codec = cd_h265) \<and> ranges_wf 0 ranges (length frame) \<and>
    length frame + 2 < size_max \<longrightarrow>
      (validate_encrypted_frame codec ranges frame \<longleftrightarrow>
         \<not> (\<exists>span \<in> set (encrypted_spans 0 ranges (length frame)).
               \<exists>p. marker_in_window frame span p)))"
proof (intro conjI impI)
  assume "codec \<noteq> cd_h264 \<and> codec \<noteq> cd_h265"
  then show "validate_encrypted_frame codec ranges frame"
    by (simp add: validate_encrypted_frame_tail)
next
  assume a: "(codec = cd_h264 \<or> codec = cd_h265) \<and> ranges_wf 0 ranges (length frame) \<and>
    length frame + 2 < size_max"
  then have "validate_tail frame (validate_encrypted_frame_loop frame 0 ranges) \<longleftrightarrow>
         (\<forall>span \<in> set (encrypted_spans 0 ranges (length frame)).
            \<forall>p. \<not> marker_in_window frame span p)"
    by (intro validate_loop_spans) simp_all
  with a show "validate_encrypted_frame codec ranges frame \<longleftrightarrow>
         \<not> (\<exists>span \<in> set (encrypted_spans 0 ranges (length frame)).
               \<exists>p. marker_in_window frame span p)"
    by (auto simp: validate_encrypted_frame_tail)
qed

lemmas validate_eval = validate_encrypted_frame_def scanner_eval Padding_def Let_def
  size_sub_def size_add_def size_max_def

text \<open>
  Claim C3, as stated, fails in both directions. The 3-byte frame 00 00 01 with no
  unencrypted range is one encrypted span that is a marker, and validation succeeds: the
  scanner never reports a marker that ends its window. The 4-byte frame 00 00 01 00 with no
  unencrypted range is covered by one encrypted span without gaps, and validation fails.
\<close>

theorem validate_encrypted_frame_counterexample:
  "encrypted_spans 0 [] (length [0, 0, 1 :: byte]) = [(0, 3)] \<and>
   is_marker [0, 0, 1] 0 \<and>
   validate_encrypted_frame cd_h264 [] [0, 0, 1] = True \<and>
   encrypted_spans 0 [] (length [0, 0, 1, 0 :: byte]) = [(0, 4)] \<and>
   validate_encrypted_frame cd_h264 [] [0, 0, 1, 0] = False"
  by (simp add: validate_eval is_marker_def)

theorem validate_encrypted_frame_spans_witness:
  "validate_encrypted_frame cd_opus [] [0, 0, 1, 0] = True \<and>
   length [0, 0, 0, 1, 9, 0, 0, 1, 7 :: byte] + 2 < size_max \<and>
   ranges_wf 0 [\<lparr>offset = 0, range_size = 4\<rparr>] (length [0, 0, 0, 1, 9, 0, 0, 1, 7 :: byte]) \<and>
   encrypted_spans 0 [\<lparr>offset = 0, range_size = 4\<rparr>] (length [0, 0, 0, 1, 9, 0, 0, 1, 7 :: byte]) =
     [(4, 9)] \<and>
   marker_in_window [0, 0, 0, 1, 9, 0, 0, 1, 7] (4, 9) 5 \<and>
   validate_encrypted_frame cd_h264 [\<lparr>offset = 0, range_size = 4\<rparr>]
     [0, 0, 0, 1, 9, 0, 0, 1, 7] = False \<and>
   ranges_wf 0 [\<lparr>offset = 0, range_size = 6\<rparr>] (length [0, 0, 0, 1, 0x67, 1 :: byte]) \<and>
   encrypted_spans 0 [\<lparr>offset = 0, range_size = 6\<rparr>] (length [0, 0, 0, 1, 0x67, 1 :: byte]) = [] \<and>
   validate_encrypted_frame cd_h265 [\<lparr>offset = 0, range_size = 6\<rparr>]
     [0, 0, 0, 1, 0x67, 1] = True"
proof -
  let ?R = "[\<lparr>offset = 0, range_size = 4\<rparr>]"
  let ?F = "[0, 0, 0, 1, 9, 0, 0, 1, 7] :: byte list"
  let ?R2 = "[\<lparr>offset = 0, range_size = 6\<rparr>]"
  let ?F2 = "[0, 0, 0, 1, 0x67, 1] :: byte list"
  have o: "validate_encrypted_frame cd_opus [] [0, 0, 1, 0] = True"
    using validate_encrypted_frame_spans[of cd_opus "[]" "[0, 0, 1, 0]"] by simp
  have b: "length ?F + 2 < size_max" by (simp add: size_max_def)
  have wf: "ranges_wf 0 ?R (length ?F)" by simp
  have spans: "encrypted_spans 0 ?R (length ?F) = [(4, 9)]" by simp
  have m: "marker_in_window ?F (4, 9) 5" by (simp add: marker_in_window_def is_marker_def)
  have "\<exists>span \<in> set (encrypted_spans 0 ?R (length ?F)). \<exists>p. marker_in_window ?F span p"
    unfolding spans using m by auto
  with validate_encrypted_frame_spans[of cd_h264 ?R ?F] wf b
  have v: "validate_encrypted_frame cd_h264 ?R ?F = False" by blast
  have b2: "length ?F2 + 2 < size_max" by (simp add: size_max_def)
  have wf2: "ranges_wf 0 ?R2 (length ?F2)" by simp
  have spans2: "encrypted_spans 0 ?R2 (length ?F2) = []" by simp
  have "\<not> (\<exists>span \<in> set (encrypted_spans 0 ?R2 (length ?F2)). \<exists>p. marker_in_window ?F2 span p)"
    unfolding spans2 by simp
  with validate_encrypted_frame_spans[of cd_h265 ?R2 ?F2] wf2 b2
  have v2: "validate_encrypted_frame cd_h265 ?R2 ?F2 = True" by blast
  from o b wf spans m v wf2 spans2 v2 show ?thesis by (intro conjI)
qed

section \<open>Claims about the AV1 partitioner\<close>

lemma av1_ext_bit: "((h::byte) AND 0x04 \<noteq> 0) \<longleftrightarrow> bit h 2"
  using and_exp_eq_0_iff_not_bit[of h 2] by simp

lemma av1_size_bit: "((h::byte) AND 0x02 \<noteq> 0) \<longleftrightarrow> bit h 1"
  using and_exp_eq_0_iff_not_bit[of h 1] by simp

lemma av1_clear_size_bit: "(h::byte) AND NOT 0x02 = unset_bit 1 h"
  by (simp add: unset_bit_eq_and_not)

lemma av1_type_eq:
  "drop_bit 3 ((h::byte) AND 0x78) = word_of_nat k \<longleftrightarrow> (unat h div 8) mod 16 = k" if "k < 16"
proof -
  have "drop_bit 3 (h AND 0x78) = word_of_nat k \<longleftrightarrow> unat (drop_bit 3 (h AND 0x78)) = unat (word_of_nat k :: byte)"
    by (simp add: word_unat_eq_iff)
  also have "unat (word_of_nat k :: byte) = k" using that by (simp add: unat_of_nat)
  finally show ?thesis by (simp only: av1_type_bits)
qed

lemma av1_type_dropped:
  "(drop_bit 3 ((h::byte) AND kAv1ObuHeaderTypeMask) \<noteq> kObuTypeTemporalDelimiter \<and>
    drop_bit 3 (h AND kAv1ObuHeaderTypeMask) \<noteq> kObuTypeTileList \<and>
    drop_bit 3 (h AND kAv1ObuHeaderTypeMask) \<noteq> kObuTypePadding) \<longleftrightarrow>
   \<not> ((unat h div 8) mod 16 = 2 \<or> (unat h div 8) mod 16 = 8 \<or> (unat h div 8) mod 16 = 15)"
  using av1_type_eq[of 2 h] av1_type_eq[of 8 h] av1_type_eq[of 15 h]
  by (simp add: kAv1ObuHeaderTypeMask_def kObuTypeTemporalDelimiter_def kObuTypeTileList_def
      kObuTypePadding_def)

lemma size_add_small: "a + b < size_max \<Longrightarrow> size_add a b = a + b"
  by (simp add: size_add_def)

lemma sizes_in_range_at:
  assumes "sizes_in_range rd frame" "j < length frame" "rd (drop j frame) = Some (v, k)"
  shows "j + k + v < size_max"
proof -
  from assms(1) have "\<forall>j \<in> set [0..<length frame].
      (case rd (drop j frame) of None \<Rightarrow> True | Some (v, k) \<Rightarrow> j + k + v < size_max)"
    by (simp add: sizes_in_range_def list_all_iff)
  with assms(2) have "case rd (drop j frame) of None \<Rightarrow> True | Some (v, k) \<Rightarrow> j + k + v < size_max"
    by simp
  with assms(3) show ?thesis by simp
qed

text \<open>The header fields the loop body reads, and the rest of the body as a function of
  the size it obtained.\<close>

lemma process_frame_av1_obu_header:
  "process_frame_av1_obu rd wr frame i =
     (if obu_header_end frame i \<ge> length frame then Inl logic_exception
      else
        case (if bit (frame ! i) 1 then rd (drop (obu_header_end frame i) frame)
              else Some (length frame - obu_header_end frame i, 0)) of
          None \<Rightarrow> Inl logic_exception
        | Some (v, k) \<Rightarrow>
            if size_add (obu_header_end frame i + k) v > length frame then Inl logic_exception
            else if \<not> ((unat (frame ! i) div 8) mod 16 = 2 \<or> (unat (frame ! i) div 8) mod 16 = 8 \<or>
                        (unat (frame ! i) div 8) mod 16 = 15) then
              Inr (size_add (obu_header_end frame i + k) v,
                [add_unencrypted_bytes (local_bytes
                   [if size_add (obu_header_end frame i + k) v = length frame \<and> bit (frame ! i) 1
                    then unset_bit 1 (frame ! i) else frame ! i]) 1] @
                (if bit (frame ! i) 2 then [add_unencrypted_bytes (frame_bytes (i + 1)) 1] else []) @
                (if bit (frame ! i) 1 \<and>
                    \<not> (size_add (obu_header_end frame i + k) v = length frame \<and> bit (frame ! i) 1)
                 then [add_unencrypted_bytes (local_bytes (wr v)) (length (wr v))] else []) @
                [add_encrypted_bytes (frame_bytes (obu_header_end frame i + k)) v])
            else Inr (size_add (obu_header_end frame i + k) v, []))"
proof -
  have he: "(if bit (frame ! i) 2 then i + 1 + kObuExtensionSizeBytes else i + 1)
            = obu_header_end frame i"
    by (simp add: obu_header_end_def kObuExtensionSizeBytes_def)
  have ext: "(frame ! i AND kAv1ObuHeaderHasExtensionMask \<noteq> 0) = bit (frame ! i) 2"
    by (simp add: kAv1ObuHeaderHasExtensionMask_def av1_ext_bit)
  have sz: "(frame ! i AND kAv1ObuHeaderHasSizeMask \<noteq> 0) = bit (frame ! i) 1"
    by (simp add: kAv1ObuHeaderHasSizeMask_def av1_size_bit)
  have clr: "frame ! i AND NOT kAv1ObuHeaderHasSizeMask = unset_bit 1 (frame ! i)"
    by (simp only: kAv1ObuHeaderHasSizeMask_def av1_clear_size_bit)
  show ?thesis
    unfolding process_frame_av1_obu_def Let_def ext sz clr av1_type_dropped he
    by (simp add: kObuExtensionSizeBytes_def split: option.splits)
qed

lemma obu_parse_Some:
  assumes "obu_parse rd frame i = Some ob"
  shows "obu_header_end frame i < length frame"
    and "\<exists>v k. (if bit (frame ! i) 1 then rd (drop (obu_header_end frame i) frame)
              else Some (length frame - obu_header_end frame i, 0)) = Some (v, k) \<and>
           obu_header_end frame i + k + v \<le> length frame \<and>
           ob = \<lparr>obu_index = i, obu_header = frame ! i,
                       obu_has_extension = bit (frame ! i) 2,
                       obu_has_size = bit (frame ! i) 1,
                       obu_type = (unat (frame ! i) div 8) mod 16,
                       obu_payload_index = obu_header_end frame i + k,
                       obu_payload_size = v\<rparr>"
  using assms
  by (auto simp: obu_parse_def split: if_splits option.splits)

lemma process_frame_av1_obu_parse:
  assumes "i < length frame" "length frame < size_max"
    and "obu_parse rd frame i \<noteq> None \<or> sizes_in_range rd frame"
  shows "process_frame_av1_obu rd wr frame i =
           (case obu_parse rd frame i of
              None \<Rightarrow> Inl logic_exception
            | Some ob \<Rightarrow> Inr (obu_end ob, obu_calls wr frame ob))"
proof (cases "obu_header_end frame i \<ge> length frame")
  case True
  then show ?thesis by (simp add: process_frame_av1_obu_header obu_parse_def)
next
  case he: False
  let ?he = "obu_header_end frame i"
  let ?r = "if bit (frame ! i) 1 then rd (drop ?he frame) else Some (length frame - ?he, 0)"
  show ?thesis
  proof (cases ?r)
    case None
    then show ?thesis using he by (simp add: process_frame_av1_obu_header obu_parse_def)
  next
    case (Some vk)
    obtain v k where vk: "vk = (v, k)" by (cases vk)
    have r: "?r = Some (v, k)" using Some vk by simp
    have small: "?he + k + v < size_max"
    proof (cases "bit (frame ! i) 1")
      case False
      with r have "v = length frame - ?he" "k = 0" by simp_all
      with he assms(2) show ?thesis by simp
    next
      case True
      with r have rd: "rd (drop ?he frame) = Some (v, k)" by simp
      from assms(3) show ?thesis
      proof
        assume "obu_parse rd frame i \<noteq> None"
        then obtain ob where "obu_parse rd frame i = Some ob" by blast
        from obu_parse_Some(2)[OF this] r have "?he + k + v \<le> length frame" by auto
        with assms(2) show ?thesis by simp
      next
        assume "sizes_in_range rd frame"
        from sizes_in_range_at[OF this _ rd] he show ?thesis by simp
      qed
    qed
    then have sa: "size_add (?he + k) v = ?he + k + v" by (rule size_add_small)
    show ?thesis
    proof (cases "?he + k + v > length frame")
      case True
      then show ?thesis using he r sa
        by (simp add: process_frame_av1_obu_header obu_parse_def)
    next
      case False
      then have p: "obu_parse rd frame i = Some \<lparr>obu_index = i, obu_header = frame ! i,
                       obu_has_extension = bit (frame ! i) 2,
                       obu_has_size = bit (frame ! i) 1,
                       obu_type = (unat (frame ! i) div 8) mod 16,
                       obu_payload_index = obu_header_end frame i + k,
                       obu_payload_size = v\<rparr>"
        using he r by (simp add: obu_parse_def)
      show ?thesis
        using he r sa False
        by (simp add: process_frame_av1_obu_header p obu_end_def obu_calls_def obu_dropped_def)
    qed
  qed
qed

lemma process_frame_av1_loop_obus:
  assumes "length frame < size_max"
    and "snd (av1_obus rd frame i) \<or> sizes_in_range rd frame"
  shows "process_frame_av1_loop rd wr frame i calls =
           Some (calls @ concat (map (obu_calls wr frame) (fst (av1_obus rd frame i))),
                 if snd (av1_obus rd frame i) then returns True else throws logic_exception)"
  using assms
proof (induction rd frame i arbitrary: calls rule: av1_obus.induct)
  case (1 rd frame i)
  note len = "1.prems"(1)
  show ?case
  proof (cases "i < length frame")
    case False
    then show ?thesis
      by (subst process_frame_av1_loop.simps) (simp add: av1_obus.simps)
  next
    case lt: True
    show ?thesis
    proof (cases "obu_parse rd frame i")
      case None
      with lt have "\<not> snd (av1_obus rd frame i)" by (simp add: av1_obus.simps)
      with "1.prems"(2) have "sizes_in_range rd frame" by simp
      then have "process_frame_av1_obu rd wr frame i = Inl logic_exception"
        using process_frame_av1_obu_parse[OF lt len, of rd wr] None by simp
      then show ?thesis
        using lt None
        by (subst process_frame_av1_loop.simps) (simp add: av1_obus.simps)
    next
      case (Some ob)
      then have step: "process_frame_av1_obu rd wr frame i = Inr (obu_end ob, obu_calls wr frame ob)"
        using process_frame_av1_obu_parse[OF lt len, of rd wr] by simp
      have unf: "av1_obus rd frame i =
                   (ob # fst (av1_obus rd frame (obu_end ob)), snd (av1_obus rd frame (obu_end ob)))"
        using lt Some by (simp add: av1_obus.simps)
      have pre: "snd (av1_obus rd frame (obu_end ob)) \<or> sizes_in_range rd frame"
        using "1.prems"(2) unf by simp
      note IH = "1.IH"(1)[OF lt Some len pre]
      show ?thesis
        using lt step
        by (subst process_frame_av1_loop.simps) (simp add: unf IH)
    qed
  qed
qed

lemma obu_parse_None_iff: "obu_parse rd frame i = None \<longleftrightarrow> obu_malformed rd frame i"
  by (auto simp: obu_parse_def obu_malformed_def split: option.splits)

lemma av1_obus_malformed_walk:
  "\<not> snd (av1_obus rd frame i) \<Longrightarrow>
     \<exists>j. obu_walk rd frame i j \<and> j < length frame \<and> obu_malformed rd frame j"
proof (induction rd frame i rule: av1_obus.induct)
  case (1 rd frame i)
  from "1.prems" have lt: "i < length frame" by (auto simp: av1_obus.simps split: if_splits)
  show ?case
  proof (cases "obu_parse rd frame i")
    case None
    then have "obu_malformed rd frame i" by (simp add: obu_parse_None_iff)
    with lt obu_walk_here[of rd frame i] show ?thesis by blast
  next
    case (Some ob)
    with lt "1.prems" have "\<not> snd (av1_obus rd frame (obu_end ob))"
      by (simp add: av1_obus.simps)
    from "1.IH"(1)[OF lt Some this] obtain j where
      j: "obu_walk rd frame (obu_end ob) j" "j < length frame" "obu_malformed rd frame j" by blast
    from obu_walk_next[OF lt Some j(1)] j(2,3) show ?thesis by blast
  qed
qed

lemma obu_walk_malformed:
  "obu_walk rd frame i j \<Longrightarrow> j < length frame \<Longrightarrow> obu_malformed rd frame j \<Longrightarrow>
     \<not> snd (av1_obus rd frame i)"
proof (induction rule: obu_walk.induct)
  case (obu_walk_here i)
  then show ?case by (simp add: av1_obus.simps obu_parse_None_iff[symmetric])
next
  case (obu_walk_next i ob j)
  then show ?case by (simp add: av1_obus.simps)
qed

lemma av1_obus_ok_iff:
  "snd (av1_obus rd frame i) \<longleftrightarrow>
     \<not> (\<exists>j. obu_walk rd frame i j \<and> j < length frame \<and> obu_malformed rd frame j)"
  using av1_obus_malformed_walk obu_walk_malformed by blast

text \<open>
  Claim C5, as stated, takes for well-formed every frame in which no header or extension
  byte is read past the end of the frame, every size field decodes and no payload ends
  past the end of the frame. The 1-byte frame 08 is one OBU of type 1 without extension
  and without size field: its header ends with the frame, its payload is the empty rest of
  the frame and its type is retained, so its header byte is to be emitted; the guard
  \<open>i >= frame.size()\<close> after the header throws and nothing is emitted. In the frame
  0A 01 07 78 the last byte is an OBU of type 15 without extension and without size field,
  to be dropped; the partitioner emits the first OBU and throws at the last one.
\<close>

theorem process_frame_av1_empty_payload_counterexample:
  "obu_header_end [0x08] 0 = length [0x08 :: byte] \<and>
   bit (0x08 :: byte) 1 = False \<and>
   bit (0x08 :: byte) 2 = False \<and>
   (unat (0x08 :: byte) div 8) mod 16 = 1 \<and>
   process_frame_av1 sample_read_leb128 sample_write_leb128 [0x08] =
     Some ([], throws logic_exception) \<and>
   obu_header_end [0x0A, 1, 7, 0x78] 3 = length [0x0A, 1, 7, 0x78 :: byte] \<and>
   (unat (0x78 :: byte) div 8) mod 16 = 15 \<and>
   process_frame_av1 sample_read_leb128 sample_write_leb128 [0x0A, 1, 7, 0x78] =
     Some ([add_unencrypted_bytes (local_bytes [0x0A]) 1,
            add_unencrypted_bytes (local_bytes [1]) 1,
            add_encrypted_bytes (frame_bytes 2) 1], throws logic_exception)"
  by (simp add: obu_header_end_def process_frame_av1_def process_frame_av1_loop.simps
      process_frame_av1_obu_header size_add_def size_max_def sample_write_leb128.simps)

text \<open>
  Claim C5, amended: for every AV1 frame shorter than \<open>2 ^ 64\<close> bytes in which the walk
  over the OBUs comes to no OBU with no byte of the frame left after its header and
  extension byte, with a size field that fails to decode, or with a size that puts the end
  of the payload past the end of the frame, the run reports success and its calls are
  those of the OBUs of the frame in order: nothing for an OBU of type 2, 8 or 15; for every
  other OBU the header byte unencrypted, the extension byte unencrypted if present, and
  the payload encrypted, where an OBU with a size that reaches the end of the frame has
  its header emitted with the size-present bit cleared and no size field, and any other
  OBU with a size has the size written again by the LEB128 writer and emitted unencrypted
  before the payload.
\<close>

theorem process_frame_av1_well_formed:
  assumes "length frame < size_max"
    and "\<not> (\<exists>j. obu_walk rd frame 0 j \<and> j < length frame \<and> obu_malformed rd frame j)"
  shows "process_frame_av1 rd wr frame =
           Some (concat (map (obu_calls wr frame) (fst (av1_obus rd frame 0))), returns True)"
proof -
  from assms(2) av1_obus_ok_iff[of rd frame 0] have "snd (av1_obus rd frame 0)" by blast
  with process_frame_av1_loop_obus[OF assms(1), of rd 0 wr "[]"] show ?thesis
    by (simp add: process_frame_av1_def)
qed

text \<open>
  Claim C8, as stated: the error is raised only when a header or extension byte would be
  read past the end of the frame, when the size fails to decode, or when the payload
  overflows the frame. The 1-byte frame 10 is one OBU header without extension and
  without size field, so nothing is read past the end and the payload is empty; the guard
  \<open>i >= frame.size()\<close> after the header raises the error all the same.
\<close>

theorem process_frame_av1_header_only_counterexample:
  "obu_header_end [0x10] 0 = length [0x10 :: byte] \<and>
   bit (0x10 :: byte) 1 = False \<and>
   bit (0x10 :: byte) 2 = False \<and>
   process_frame_av1 sample_read_leb128 sample_write_leb128 [0x10] =
     Some ([], throws logic_exception)"
  by (simp add: obu_header_end_def process_frame_av1_def process_frame_av1_loop.simps
      process_frame_av1_obu_header)

text \<open>
  Claim C8, amended: provided no size computed for the frame leaves the range of
  \<open>size_t\<close>, the partitioner raises the malformed-frame error exactly when the walk
  over the OBUs comes to an OBU with no byte of the frame left after its header and
  extension byte, or with a size field that fails to decode, or with a size that puts the
  end of the payload past the end of the frame; on every other frame it completes and
  reports success.
\<close>

theorem process_frame_av1_malformed:
  assumes "sizes_in_range rd frame"
  shows "((\<exists>calls. process_frame_av1 rd wr frame = Some (calls, throws logic_exception)) \<longleftrightarrow>
            (\<exists>j. obu_walk rd frame 0 j \<and> j < length frame \<and> obu_malformed rd frame j)) \<and>
         ((\<exists>calls. process_frame_av1 rd wr frame = Some (calls, returns True)) \<longleftrightarrow>
            \<not> (\<exists>j. obu_walk rd frame 0 j \<and> j < length frame \<and> obu_malformed rd frame j))"
proof -
  from assms have len: "length frame < size_max" by (simp add: sizes_in_range_def)
  have run: "process_frame_av1 rd wr frame =
           Some (concat (map (obu_calls wr frame) (fst (av1_obus rd frame 0))),
                 if snd (av1_obus rd frame 0) then returns True else throws logic_exception)"
    using process_frame_av1_loop_obus[OF len, of rd 0 wr "[]"] assms
    by (simp add: process_frame_av1_def)
  have ok: "snd (av1_obus rd frame 0) \<longleftrightarrow>
     \<not> (\<exists>j. obu_walk rd frame 0 j \<and> j < length frame \<and> obu_malformed rd frame j)"
    by (rule av1_obus_ok_iff)
  show ?thesis
  proof (cases "snd (av1_obus rd frame 0)")
    case True
    then have "process_frame_av1 rd wr frame =
      Some (concat (map (obu_calls wr frame) (fst (av1_obus rd frame 0))), returns True)"
      using run by simp
    moreover from True ok
    have "\<not> (\<exists>j. obu_walk rd frame 0 j \<and> j < length frame \<and> obu_malformed rd frame j)"
      by blast
    ultimately show ?thesis by simp
  next
    case False
    then have "process_frame_av1 rd wr frame =
      Some (concat (map (obu_calls wr frame) (fst (av1_obus rd frame 0))), throws logic_exception)"
      using run by simp
    moreover from False ok
    have "\<exists>j. obu_walk rd frame 0 j \<and> j < length frame \<and> obu_malformed rd frame j"
      by blast
    ultimately show ?thesis by simp
  qed
qed

theorem process_frame_av1_well_formed_witness:
  "length [0x12, 0, 0x0E, 0x55, 2, 7, 7, 0x32, 1, 9 :: byte] < size_max \<and>
   \<not> (\<exists>j. obu_walk sample_read_leb128 [0x12, 0, 0x0E, 0x55, 2, 7, 7, 0x32, 1, 9] 0 j \<and>
          j < length [0x12, 0, 0x0E, 0x55, 2, 7, 7, 0x32, 1, 9 :: byte] \<and>
          obu_malformed sample_read_leb128 [0x12, 0, 0x0E, 0x55, 2, 7, 7, 0x32, 1, 9] j) \<and>
   process_frame_av1 sample_read_leb128 sample_write_leb128
       [0x12, 0, 0x0E, 0x55, 2, 7, 7, 0x32, 1, 9] =
     Some ([add_unencrypted_bytes (local_bytes [0x0E]) 1,
            add_unencrypted_bytes (frame_bytes 3) 1,
            add_unencrypted_bytes (local_bytes [2]) 1,
            add_encrypted_bytes (frame_bytes 5) 2,
            add_unencrypted_bytes (local_bytes [0x30]) 1,
            add_encrypted_bytes (frame_bytes 9) 1], returns True)"
proof -
  let ?F = "[0x12, 0, 0x0E, 0x55, 2, 7, 7, 0x32, 1, 9] :: byte list"
  have len: "length ?F < size_max" by (simp add: size_max_def)
  have "snd (av1_obus sample_read_leb128 ?F 0)" by code_simp
  with av1_obus_ok_iff[of sample_read_leb128 ?F 0]
  have ok: "\<not> (\<exists>j. obu_walk sample_read_leb128 ?F 0 j \<and> j < length ?F \<and>
          obu_malformed sample_read_leb128 ?F j)"
    by blast
  have calls: "concat (map (obu_calls sample_write_leb128 ?F)
       (fst (av1_obus sample_read_leb128 ?F 0))) =
     [add_unencrypted_bytes (local_bytes [0x0E]) 1,
      add_unencrypted_bytes (frame_bytes 3) 1,
      add_unencrypted_bytes (local_bytes [2]) 1,
      add_encrypted_bytes (frame_bytes 5) 2,
      add_unencrypted_bytes (local_bytes [0x30]) 1,
      add_encrypted_bytes (frame_bytes 9) 1]"
    by code_simp
  from process_frame_av1_well_formed[OF len ok, of sample_write_leb128] calls len ok
  show ?thesis by simp
qed

theorem process_frame_av1_malformed_witness:
  "sizes_in_range sample_read_leb128 [0x0A, 5, 7] \<and>
   obu_walk sample_read_leb128 [0x0A, 5, 7] 0 0 \<and>
   0 < length [0x0A, 5, 7 :: byte] \<and>
   obu_malformed sample_read_leb128 [0x0A, 5, 7] 0 \<and>
   (\<exists>calls. process_frame_av1 sample_read_leb128 sample_write_leb128 [0x0A, 5, 7] =
      Some (calls, throws logic_exception)) \<and>
   sizes_in_range sample_read_leb128 [0x0A, 1, 7] \<and>
   process_frame_av1 sample_read_leb128 sample_write_leb128 [0x0A, 1, 7] =
      Some ([add_unencrypted_bytes (local_bytes [0x08]) 1,
             add_encrypted_bytes (frame_bytes 2) 1], returns True) \<and>
   \<not> (\<exists>j. obu_walk sample_read_leb128 [0x0A, 1, 7] 0 j \<and> j < length [0x0A, 1, 7 :: byte] \<and>
          obu_malformed sample_read_leb128 [0x0A, 1, 7] j)"
proof -
  let ?F = "[0x0A, 5, 7] :: byte list"
  let ?G = "[0x0A, 1, 7] :: byte list"
  have rng: "sizes_in_range sample_read_leb128 ?F"
    by (simp add: sizes_in_range_def size_max_def upt_rec_numeral)
  have walk: "obu_walk sample_read_leb128 ?F 0 0" by (rule obu_walk_here)
  have lt: "0 < length ?F" by simp
  have mal: "obu_malformed sample_read_leb128 ?F 0" by code_simp
  from walk lt mal
  have "\<exists>j. obu_walk sample_read_leb128 ?F 0 j \<and> j < length ?F \<and>
            obu_malformed sample_read_leb128 ?F j" by blast
  with process_frame_av1_malformed[OF rng, of sample_write_leb128]
  have thr: "\<exists>calls. process_frame_av1 sample_read_leb128 sample_write_leb128 ?F =
      Some (calls, throws logic_exception)" by blast
  have rng2: "sizes_in_range sample_read_leb128 ?G"
    by (simp add: sizes_in_range_def size_max_def upt_rec_numeral)
  have run2: "process_frame_av1 sample_read_leb128 sample_write_leb128 ?G =
      Some ([add_unencrypted_bytes (local_bytes [0x08]) 1,
             add_encrypted_bytes (frame_bytes 2) 1], returns True)"
    by (simp add: process_frame_av1_def process_frame_av1_loop.simps
        process_frame_av1_obu_header obu_header_end_def size_add_def size_max_def
        unset_bit_eq_and_not)
  then have "\<exists>calls. process_frame_av1 sample_read_leb128 sample_write_leb128 ?G =
      Some (calls, returns True)" by blast
  with process_frame_av1_malformed[OF rng2, of sample_write_leb128]
  have ok2: "\<not> (\<exists>j. obu_walk sample_read_leb128 ?G 0 j \<and> j < length ?G \<and>
          obu_malformed sample_read_leb128 ?G j)" by blast
  from rng walk lt mal thr rng2 run2 ok2 show ?thesis by (intro conjI)
qed

section \<open>Claims about the Golomb-prefix length calculator\<close>

subsection \<open>The data bytes\<close>

lemma data_bytes_sorted: "sorted_wrt (<) (data_bytes payload n)"
  unfolding data_bytes_def by (rule sorted_wrt_filter) (simp add: sorted_wrt_upt)

lemma data_bytes_set:
  "k \<in> set (data_bytes payload n) \<longleftrightarrow> k < n \<and> \<not> emulation_prevention payload k"
  by (auto simp: data_bytes_def)

lemma data_bytes_nth:
  assumes "i < length (data_bytes payload n)"
  shows "data_bytes payload n ! i < n" "\<not> emulation_prevention payload (data_bytes payload n ! i)"
  using assms nth_mem[OF assms] by (auto simp: data_bytes_set)

lemma data_bytes_mono:
  assumes "i < j" "j < length (data_bytes payload n)"
  shows "data_bytes payload n ! i < data_bytes payload n ! j"
  using sorted_wrt_nth_less[OF data_bytes_sorted assms] .

lemma data_bytes_index_less:
  assumes "i < length (data_bytes payload n)" "j < length (data_bytes payload n)"
    and "data_bytes payload n ! i < data_bytes payload n ! j"
  shows "i < j"
proof (rule ccontr)
  assume "\<not> i < j"
  then have "j = i \<or> j < i" by arith
  then show False
  proof
    assume "j = i" with assms(3) show False by simp
  next
    assume "j < i"
    from data_bytes_mono[OF this assms(1)] assms(3) show False by simp
  qed
qed

lemma emulation_prevention_not_next:
  "emulation_prevention payload k \<Longrightarrow> \<not> emulation_prevention payload (Suc k)"
  by (auto simp: emulation_prevention_def)

lemma data_bytes_first:
  assumes "0 < length (data_bytes payload n)"
  shows "data_bytes payload n ! 0 = 0"
proof -
  let ?g = "data_bytes payload n"
  from data_bytes_nth(1)[OF assms] have "0 < n" by simp
  then have "0 \<in> set ?g" by (simp add: data_bytes_set emulation_prevention_def)
  then obtain i where i: "i < length ?g" "?g ! i = 0" by (auto simp: in_set_conv_nth)
  show ?thesis
  proof (cases "i = 0")
    case True with i show ?thesis by simp
  next
    case False
    then have "0 < i" by simp
    from data_bytes_mono[OF this i(1)] i(2) show ?thesis by simp
  qed
qed

lemma data_bytes_next:
  assumes "Suc i < length (data_bytes payload n)"
  shows "data_bytes payload n ! Suc i = data_bytes payload n ! i + 1 \<or>
         (data_bytes payload n ! Suc i = data_bytes payload n ! i + 2 \<and>
          emulation_prevention payload (data_bytes payload n ! i + 1))"
proof -
  let ?g = "data_bytes payload n"
  let ?a = "?g ! i" and ?b = "?g ! Suc i"
  have i: "i < length ?g" using assms by simp
  have ab: "?a < ?b" using data_bytes_mono[of i "Suc i"] assms by simp
  have bn: "?b < n" using data_bytes_nth(1)[OF assms] .
  have gap: "emulation_prevention payload k" if "?a < k" "k < ?b" for k
  proof (rule ccontr)
    assume "\<not> emulation_prevention payload k"
    with that bn have "k \<in> set ?g" by (simp add: data_bytes_set)
    then obtain m where m: "m < length ?g" "?g ! m = k" by (auto simp: in_set_conv_nth)
    from data_bytes_index_less[OF i m(1)] that(1) m(2) have "i < m" by simp
    moreover from data_bytes_index_less[OF m(1) assms] that(2) m(2) have "m < Suc i" by simp
    ultimately show False by simp
  qed
  show ?thesis
  proof (cases "?b = ?a + 1")
    case True then show ?thesis by simp
  next
    case False
    with ab have lt: "?a + 1 < ?b" by simp
    then have e1: "emulation_prevention payload (?a + 1)" using gap by simp
    have "?b = ?a + 2"
    proof (rule ccontr)
      assume "?b \<noteq> ?a + 2"
      with lt have "?a + 2 < ?b" by simp
      then have "emulation_prevention payload (Suc (?a + 1))" using gap by simp
      with emulation_prevention_not_next[OF e1] show False by simp
    qed
    with e1 show ?thesis by simp
  qed
qed


lemma raw_position_0:
  "0 < length (data_bytes payload n) \<Longrightarrow> raw_position payload n 0 = 0"
  by (simp add: raw_position_def data_bytes_first)

lemma raw_position_bounds:
  assumes "j < 8 * length (data_bytes payload n)"
  shows "raw_position payload n j < n * 8"
    and "raw_position payload n j div 8 = data_bytes payload n ! (j div 8)"
    and "raw_position payload n j mod 8 = j mod 8"
proof -
  have "j div 8 < length (data_bytes payload n)" using assms by simp
  from data_bytes_nth(1)[OF this] show "raw_position payload n j < n * 8"
    unfolding raw_position_def by simp
  show "raw_position payload n j div 8 = data_bytes payload n ! (j div 8)"
    by (simp add: raw_position_def)
  show "raw_position payload n j mod 8 = j mod 8"
    by (simp add: raw_position_def)
qed


lemma before_data_bit_Suc:
  assumes "Suc j < 8 * length (data_bytes payload n)"
  shows "before_data_bit payload n (Suc j) (raw_position payload n j + 1)"
proof (cases "j mod 8 = 7")
  case False
  then have "Suc j div 8 = j div 8" "Suc j mod 8 = j mod 8 + 1" by arith+
  then show ?thesis by (simp add: before_data_bit_def raw_position_def)
next
  case True
  then have d: "Suc j div 8 = Suc (j div 8)" and m: "Suc j mod 8 = 0" by arith+
  have "Suc (j div 8) < length (data_bytes payload n)" using assms d by arith
  from data_bytes_next[OF this] show ?thesis
  proof
    assume "data_bytes payload n ! Suc (j div 8) = data_bytes payload n ! (j div 8) + 1"
    then show ?thesis using True d m by (simp add: before_data_bit_def raw_position_def)
  next
    assume "data_bytes payload n ! Suc (j div 8) = data_bytes payload n ! (j div 8) + 2 \<and>
          emulation_prevention payload (data_bytes payload n ! (j div 8) + 1)"
    moreover have "(8 * data_bytes payload n ! (j div 8) + 7 + 1) div 8 = data_bytes payload n ! (j div 8) + 1"
      by simp
    ultimately show ?thesis using True d m
      by (simp add: before_data_bit_def raw_position_def)
  qed
qed

subsection \<open>Steps of the loop\<close>

lemma size_mul_8: "n * 8 < size_max \<Longrightarrow> size_mul n 8 = n * 8"
  by (simp add: size_mul_def)

lemma size_add_below: "a + b < size_max \<Longrightarrow> size_add a b = a + b"
  by (simp add: size_add_def)

lemma loop_exit:
  "n * 8 < size_max \<Longrightarrow> \<not> (pbi < n * 8 \<and> parsed < 3) \<Longrightarrow>
   BytesCoveringH264PPS_loop payload n pbi zc parsed = Inr (pbi div 8 + 1)"
  by (subst BytesCoveringH264PPS_loop.simps) (simp only: size_mul_8 if_False)

lemma loop_emulation_byte:
  assumes "pbi < n * 8" "parsed < 3" "pbi mod 8 = 0" "emulation_prevention payload (pbi div 8)"
    and bnd: "n * 8 < size_max"
  shows "BytesCoveringH264PPS_loop payload n pbi zc parsed =
         BytesCoveringH264PPS_loop payload n (pbi + 8) zc parsed"
proof -
  from assms(1,3) have "pbi + 8 \<le> n * 8" by presburger
  with bnd have a: "size_add pbi 8 = pbi + 8" by (simp add: size_add_below)
  show ?thesis
    using assms(1-4)
    by (subst BytesCoveringH264PPS_loop.simps)
       (simp add: Let_def emulation_prevention_def kEmulationPreventionByte_def size_mul_8[OF bnd] a)
qed

lemma loop_data_bit:
  assumes "j < 8 * length (data_bytes payload n)" "parsed < 3"
    and bnd: "n * 8 < size_max"
  shows "BytesCoveringH264PPS_loop payload n (raw_position payload n j) zc parsed =
         (if \<not> data_bit payload n j then
            if zc + 1 \<ge> 32 then Inl length_exception
            else BytesCoveringH264PPS_loop payload n (raw_position payload n j + 1) (zc + 1) parsed
          else BytesCoveringH264PPS_loop payload n
                 (size_add (raw_position payload n j) (1 + zc)) 0 (parsed + 1))"
proof -
  let ?p = "raw_position payload n j"
  note b = raw_position_bounds[OF assms(1)]
  have a1: "size_add ?p 1 = ?p + 1" using b(1) bnd by (simp add: size_add_below)
  have ne: "\<not> emulation_prevention payload (?p div 8)"
    using data_bytes_nth(2)[of "j div 8" payload n] assms(1) b(2) by simp
  have bt: "(payload ! (?p div 8) AND push_bit (7 - ?p mod 8) 1 = 0) \<longleftrightarrow> \<not> data_bit payload n j"
    by (simp only: bit_test b data_bit_def)
  have c: "\<not> (?p mod 8 = 0 \<and> ?p div 8 \<ge> 2 \<and> payload ! (?p div 8) = kEmulationPreventionByte \<and>
             payload ! (?p div 8 - 1) = 0 \<and> payload ! (?p div 8 - 2) = 0)"
    using ne by (simp add: emulation_prevention_def kEmulationPreventionByte_def)
  show ?thesis
    apply (subst BytesCoveringH264PPS_loop.simps)
    apply (simp only: Let_def size_mul_8[OF bnd] a1 b(1) assms(2) c bt simp_thms if_True if_False)
    done
qed

lemma loop_before_data_bit:
  assumes "before_data_bit payload n j pbi" "j < 8 * length (data_bytes payload n)" "parsed < 3"
    and bnd: "n * 8 < size_max"
  shows "BytesCoveringH264PPS_loop payload n pbi zc parsed =
         BytesCoveringH264PPS_loop payload n (raw_position payload n j) zc parsed"
proof (cases "pbi = raw_position payload n j")
  case True
  then show ?thesis by simp
next
  case False
  with assms(1) have p: "pbi + 8 = raw_position payload n j" "pbi mod 8 = 0"
    "emulation_prevention payload (pbi div 8)"
    by (auto simp: before_data_bit_def)
  from raw_position_bounds(1)[OF assms(2)] p(1) have "pbi < n * 8" by simp
  from loop_emulation_byte[OF this assms(3) p(2,3) bnd] p(1) show ?thesis by simp
qed

text \<open>A run of \<open>m\<close> zero data bits from data bit \<open>j\<close> on, then a one bit.\<close>

lemma loop_zero_run:
  assumes "before_data_bit payload n j pbi" "parsed < 3"
    and "\<And>t. t < m \<Longrightarrow> \<not> data_bit payload n (j + t)"
    and "j + m < 8 * length (data_bytes payload n)"
    and "data_bit payload n (j + m)"
    and "zc + m < 32"
    and bnd: "n * 8 < size_max"
  shows "BytesCoveringH264PPS_loop payload n pbi zc parsed =
         BytesCoveringH264PPS_loop payload n
           (size_add (raw_position payload n (j + m)) (1 + (zc + m))) 0 (parsed + 1)"
  using assms(1-6)
proof (induction m arbitrary: j pbi zc)
  case 0
  then have j: "j < 8 * length (data_bytes payload n)" by simp
  from loop_before_data_bit[OF "0.prems"(1) j "0.prems"(2) bnd]
    loop_data_bit[OF j "0.prems"(2) bnd] "0.prems"(5)
  show ?case by simp
next
  case (Suc m)
  then have j: "j < 8 * length (data_bytes payload n)" by simp
  have z: "\<not> data_bit payload n j" using Suc.prems(3)[of 0] by simp
  have zc: "\<not> zc + 1 \<ge> 32" using Suc.prems(6) by simp
  have step: "BytesCoveringH264PPS_loop payload n pbi zc parsed =
        BytesCoveringH264PPS_loop payload n (raw_position payload n j + 1) (zc + 1) parsed"
    using loop_before_data_bit[OF Suc.prems(1) j Suc.prems(2) bnd]
      loop_data_bit[OF j Suc.prems(2) bnd] z zc
    by simp
  have sj: "Suc j < 8 * length (data_bytes payload n)" using Suc.prems(4) by simp
  have "BytesCoveringH264PPS_loop payload n (raw_position payload n j + 1) (zc + 1) parsed =
        BytesCoveringH264PPS_loop payload n
          (size_add (raw_position payload n (Suc j + m)) (1 + (zc + 1 + m))) 0 (parsed + 1)"
  proof (rule Suc.IH[OF before_data_bit_Suc[OF sj] Suc.prems(2)])
    show "\<not> data_bit payload n (Suc j + t)" if "t < m" for t
      using Suc.prems(3)[of "Suc t"] that by simp
    show "Suc j + m < 8 * length (data_bytes payload n)" using Suc.prems(4) by simp
    show "data_bit payload n (Suc j + m)" using Suc.prems(5) by simp
    show "zc + 1 + m < 32" using Suc.prems(6) by simp
  qed
  with step show ?case by simp
qed

text \<open>A run of zero data bits that brings the count to 32.\<close>

lemma loop_zero_run_error:
  assumes "before_data_bit payload n j pbi" "parsed < 3"
    and "\<And>t. t < m \<Longrightarrow> \<not> data_bit payload n (j + t)"
    and "j + m \<le> 8 * length (data_bytes payload n)"
    and "zc + m = 32" "0 < m"
    and bnd: "n * 8 < size_max"
  shows "BytesCoveringH264PPS_loop payload n pbi zc parsed = Inl length_exception"
  using assms(1-6)
proof (induction m arbitrary: j pbi zc)
  case 0
  then show ?case by simp
next
  case (Suc m)
  then have j: "j < 8 * length (data_bytes payload n)" by simp
  have z: "\<not> data_bit payload n j" using Suc.prems(3)[of 0] by simp
  note unf = loop_before_data_bit[OF Suc.prems(1) j Suc.prems(2) bnd, of zc]
    loop_data_bit[OF j Suc.prems(2) bnd, of zc]
  show ?case
  proof (cases "m = 0")
    case True
    with Suc.prems(5) have "zc + 1 \<ge> 32" by simp
    with unf z show ?thesis by simp
  next
    case False
    then have zc: "\<not> zc + 1 \<ge> 32" using Suc.prems(5) by simp
    have sj: "Suc j < 8 * length (data_bytes payload n)" using Suc.prems(4) False by simp
    have "BytesCoveringH264PPS_loop payload n (raw_position payload n j + 1) (zc + 1) parsed =
          Inl length_exception"
    proof (rule Suc.IH[OF before_data_bit_Suc[OF sj] Suc.prems(2)])
      show "\<not> data_bit payload n (Suc j + t)" if "t < m" for t
        using Suc.prems(3)[of "Suc t"] that by simp
      show "Suc j + m \<le> 8 * length (data_bytes payload n)" using Suc.prems(4) by simp
      show "zc + 1 + m = 32" using Suc.prems(5) by simp
      show "0 < m" using False by simp
    qed
    with unf z zc show ?thesis by simp
  qed
qed

subsection \<open>Runs of zero data bits\<close>

lemma data_bits_nth:
  "j < 8 * length (data_bytes payload n) \<Longrightarrow> data_bits payload n ! j = data_bit payload n j"
  by (simp add: data_bits_def)

lemma length_data_bits: "length (data_bits payload n) = 8 * length (data_bytes payload n)"
  by (simp add: data_bits_def)

lemma zero_run_zero:
  assumes "t < zero_run payload n s"
  shows "s + t < 8 * length (data_bytes payload n)" "\<not> data_bit payload n (s + t)"
proof -
  let ?xs = "drop s (data_bits payload n)"
  from assms have t: "t < length (takeWhile Not ?xs)" by (simp add: zero_run_def)
  also have "\<dots> \<le> length ?xs" by (rule length_takeWhile_le)
  finally have lt: "t < length ?xs" .
  then show b: "s + t < 8 * length (data_bytes payload n)" by (simp add: length_data_bits)
  have "takeWhile Not ?xs ! t \<in> set (takeWhile Not ?xs)" using t by (rule nth_mem)
  then have "\<not> takeWhile Not ?xs ! t" by (auto dest: set_takeWhileD)
  moreover have "takeWhile Not ?xs ! t = ?xs ! t" using t by (rule takeWhile_nth)
  moreover have "?xs ! t = data_bit payload n (s + t)"
    using lt b by (simp add: data_bits_nth)
  ultimately show "\<not> data_bit payload n (s + t)" by simp
qed

lemma zero_run_one:
  assumes "s + zero_run payload n s < 8 * length (data_bytes payload n)"
  shows "data_bit payload n (s + zero_run payload n s)"
proof -
  let ?xs = "drop s (data_bits payload n)"
  let ?z = "zero_run payload n s"
  from assms have lt: "length (takeWhile Not ?xs) < length ?xs"
    by (simp add: zero_run_def length_data_bits)
  from nth_length_takeWhile[OF this] have "?xs ! ?z" by (simp add: zero_run_def)
  moreover have "?xs ! ?z = data_bit payload n (s + ?z)"
    using assms by (simp add: data_bits_nth length_data_bits)
  ultimately show ?thesis by simp
qed

lemma no_emulation_between_raw:
  assumes "no_emulation_between payload n a b" "a \<le> b"
  shows "raw_position payload n b = raw_position payload n a + (b - a)"
proof -
  define A B ra rb ga gb where "A = a div 8" and "B = b div 8" and "ra = a mod 8"
    and "rb = b mod 8" and "ga = data_bytes payload n ! (a div 8)"
    and "gb = data_bytes payload n ! (b div 8)"
  have g: "gb = ga + (B - A)"
    using assms(1) by (simp add: no_emulation_between_def ga_def gb_def A_def B_def)
  have AB: "A \<le> B" unfolding A_def B_def using assms(2) by (rule div_le_mono)
  have a: "a = 8 * A + ra" and b: "b = 8 * B + rb" by (simp_all add: A_def B_def ra_def rb_def)
  have "8 * gb + rb = 8 * ga + ra + (b - a)"
    using g AB assms(2) unfolding a b by linarith
  then show ?thesis
    by (simp add: raw_position_def ga_def gb_def ra_def rb_def)
qed

subsection \<open>The loop against the specification\<close>


lemma after_data_bits_before:
  assumes "after_data_bits payload n s pbi" "s < 8 * length (data_bytes payload n)"
  shows "before_data_bit payload n s pbi"
proof (cases "s = 0")
  case True
  with assms show ?thesis
    by (simp add: after_data_bits_def before_data_bit_def raw_position_0)
next
  case False
  with assms(1) have pbi: "pbi = raw_position payload n (s - 1) + 1"
    by (simp add: after_data_bits_def)
  from False assms(2) have "Suc (s - 1) < 8 * length (data_bytes payload n)" by simp
  from before_data_bit_Suc[OF this] pbi False show ?thesis by simp
qed

lemma loop_done:
  assumes "after_data_bits payload n s pbi" "odd s"
    and bnd: "n * 8 < size_max"
  shows "BytesCoveringH264PPS_loop payload n pbi zc 3 =
         Inr (data_bytes payload n ! ((s - 1) div 8) + 1)"
proof -
  from assms(2) have pos: "0 < s" by (cases s) auto
  with assms(1) have pbi: "pbi = raw_position payload n (s - 1) + 1"
    by (simp add: after_data_bits_def)
  define k where "k = s - 1"
  from assms(2) pos have "even k" by (simp add: k_def)
  then have "k mod 8 \<noteq> 7" by presburger
  then have "k mod 8 + 1 < 8" by simp
  then have "(8 * (data_bytes payload n ! (k div 8)) + (k mod 8 + 1)) div 8 =
             data_bytes payload n ! (k div 8)"
    by simp
  then have "pbi div 8 = data_bytes payload n ! (k div 8)"
    unfolding pbi raw_position_def k_def by (simp only: add.assoc)
  moreover have "BytesCoveringH264PPS_loop payload n pbi zc 3 = Inr (pbi div 8 + 1)"
    by (rule loop_exit[OF bnd]) simp
  ultimately show ?thesis by (simp add: k_def)
qed

lemma loop_value_error:
  assumes "after_data_bits payload n s pbi" "parsed < 3" "32 \<le> zero_run payload n s"
    and bnd: "n * 8 < size_max"
  shows "BytesCoveringH264PPS_loop payload n pbi 0 parsed = Inl length_exception"
proof -
  let ?G = "8 * length (data_bytes payload n)"
  have zeros: "\<not> data_bit payload n (s + t)" if "t < 32" for t
    using zero_run_zero(2)[of t payload n s] that assms(3) by simp
  have "s + 31 < ?G" using zero_run_zero(1)[of 31 payload n s] assms(3) by simp
  then have s: "s < ?G" and le: "s + 32 \<le> ?G" by simp_all
  show ?thesis
  proof (rule loop_zero_run_error[where j = s and m = 32])
    show "before_data_bit payload n s pbi" using after_data_bits_before[OF assms(1) s] .
    show "parsed < 3" by (rule assms(2))
    show "\<And>t. t < 32 \<Longrightarrow> \<not> data_bit payload n (s + t)" by (rule zeros)
    show "s + 32 \<le> ?G" by (rule le)
    show "0 + 32 = (32::nat)" by simp
    show "(0::nat) < 32" by simp
    show "n * 8 < size_max" by (rule bnd)
  qed
qed

lemma loop_value:
  assumes "after_data_bits payload n s pbi" "parsed < 3"
    and "zero_run payload n s < 32"
    and "s + 2 * zero_run payload n s + 1 \<le> 8 * length (data_bytes payload n)"
    and "no_emulation_between payload n (s + zero_run payload n s) (s + 2 * zero_run payload n s)"
    and bnd: "n * 8 < size_max"
  shows "\<exists>pbi'. after_data_bits payload n (s + 2 * zero_run payload n s + 1) pbi' \<and>
           BytesCoveringH264PPS_loop payload n pbi 0 parsed =
           BytesCoveringH264PPS_loop payload n pbi' 0 (parsed + 1)"
proof -
  let ?G = "8 * length (data_bytes payload n)"
  let ?z = "zero_run payload n s"
  from assms(4) have sz: "s + ?z < ?G" and s: "s < ?G" by simp_all
  have run: "BytesCoveringH264PPS_loop payload n pbi 0 parsed =
        BytesCoveringH264PPS_loop payload n
          (size_add (raw_position payload n (s + ?z)) (1 + (0 + ?z))) 0 (parsed + 1)"
  proof (rule loop_zero_run)
    show "before_data_bit payload n s pbi" using after_data_bits_before[OF assms(1) s] .
    show "parsed < 3" by (rule assms(2))
    show "\<not> data_bit payload n (s + t)" if "t < ?z" for t
      using zero_run_zero(2)[OF that] .
    show "s + ?z < ?G" by (rule sz)
    show "data_bit payload n (s + ?z)" using zero_run_one[OF sz] .
    show "0 + ?z < 32" using assms(3) by simp
    show "n * 8 < size_max" by (rule bnd)
  qed
  have le: "s + ?z \<le> s + 2 * ?z" by simp
  have raw: "raw_position payload n (s + 2 * ?z) = raw_position payload n (s + ?z) + ?z"
    using no_emulation_between_raw[OF assms(5) le] by simp
  have "s + 2 * ?z < ?G" using assms(4) by simp
  from raw_position_bounds(1)[OF this] bnd raw
  have "raw_position payload n (s + ?z) + (1 + (0 + ?z)) < size_max" by simp
  then have wrap: "size_add (raw_position payload n (s + ?z)) (1 + (0 + ?z)) =
      raw_position payload n (s + ?z) + (1 + (0 + ?z))"
    by (rule size_add_below)
  let ?p = "raw_position payload n (s + 2 * ?z) + 1"
  have "after_data_bits payload n (s + 2 * ?z + 1) ?p"
    using assms(4) by (simp add: after_data_bits_def)
  moreover have "BytesCoveringH264PPS_loop payload n pbi 0 parsed =
           BytesCoveringH264PPS_loop payload n ?p 0 (parsed + 1)"
    using run raw wrap by (simp only: add_0 add_0_right add.assoc add.commute[of 1])
  ultimately show ?thesis by blast
qed

lemma loop_golomb_cover:
  assumes "golomb_cover payload n s c = Some r"
    and "suffixes_contiguous payload n s c"
    and "parsed + c = 3"
    and "odd s \<longleftrightarrow> odd parsed"
    and "after_data_bits payload n s pbi"
    and bnd: "n * 8 < size_max"
  shows "BytesCoveringH264PPS_loop payload n pbi 0 parsed = r"
  using assms(1-5)
proof (induction c arbitrary: s parsed pbi)
  case 0
  then have parsed: "parsed = 3" by simp
  with "0.prems"(4) have odd: "odd s" by simp
  from loop_done[OF "0.prems"(5) odd bnd, of 0] "0.prems"(1) parsed show ?case by simp
next
  case (Suc c)
  let ?G = "8 * length (data_bytes payload n)"
  let ?z = "zero_run payload n s"
  from Suc.prems(3) have parsed: "parsed < 3" by simp
  show ?case
  proof (cases "?z \<ge> 32")
    case True
    then have r: "r = Inl length_exception" using Suc.prems(1) by (simp add: Let_def)
    with loop_value_error[OF Suc.prems(5) parsed True bnd] show ?thesis by simp
  next
    case small: False
    show ?thesis
    proof (cases "s + 2 * ?z + 1 > ?G")
      case True
      with small Suc.prems(1) show ?thesis by (simp add: Let_def)
    next
      case False
      then have fit: "s + 2 * ?z + 1 \<le> ?G" by simp
      from small have z: "?z < 32" by simp
      from small False Suc.prems(1)
      have next_cover: "golomb_cover payload n (s + 2 * ?z + 1) c = Some r"
        by (simp add: Let_def)
      from small False Suc.prems(2)
      have neb: "no_emulation_between payload n (s + ?z) (s + 2 * ?z)"
        and next_sc: "suffixes_contiguous payload n (s + 2 * ?z + 1) c"
        by (simp_all add: Let_def)
      from loop_value[OF Suc.prems(5) parsed z fit neb bnd] obtain pbi' where
        p': "after_data_bits payload n (s + 2 * ?z + 1) pbi'"
        and step: "BytesCoveringH264PPS_loop payload n pbi 0 parsed =
           BytesCoveringH264PPS_loop payload n pbi' 0 (parsed + 1)"
        by blast
      have "BytesCoveringH264PPS_loop payload n pbi' 0 (parsed + 1) = r"
      proof (rule Suc.IH[OF next_cover next_sc _ _ p'])
        show "parsed + 1 + c = 3" using Suc.prems(3) by simp
        show "odd (s + 2 * ?z + 1) \<longleftrightarrow> odd (parsed + 1)" using Suc.prems(4) by simp
      qed
      with step show ?thesis by simp
    qed
  qed
qed

text \<open>
  Claim C6, amended: for every payload and every remaining length below \<open>2 ^ 61\<close>
  bytes (so that the number of bits of the payload fits the 64-bit bit index) in which
  three Exponential-Golomb codes are complete within the data bits of the payload (the
  bits, most significant first, of the bytes that are not 00 00 03 emulation-prevention
  bytes) and no emulation-prevention byte lies among the bits that follow the one bit of a
  code, the function returns the number of bytes of the payload needed to cover through
  the end of the third value; it throws the length error when the run of leading zero bits
  of one of these codes reaches 32, the codes before it being complete.
\<close>

theorem BytesCoveringH264PPS_golomb_cover:
  assumes "sizeRemaining * 8 < size_max"
    and "golomb_cover payload sizeRemaining 0 3 = Some r"
    and "suffixes_contiguous payload sizeRemaining 0 3"
  shows "BytesCoveringH264PPS payload sizeRemaining = r"
  unfolding BytesCoveringH264PPS_def
  by (rule loop_golomb_cover[OF assms(2,3) _ _ _ assms(1)]) (simp_all add: after_data_bits_def)

text \<open>
  Claim C6, as stated, holds for every payload. The 1-byte payload 00 holds no complete
  Exponential-Golomb code, and the function returns 2, more bytes than the payload has:
  the loop stops at the end of the payload. In the 12-byte payload below the first code
  has 31 leading zero bits and its 31 further bits run over the emulation-prevention byte
  at index 7; with that byte skipped the three codes end in byte 10, so 11 bytes cover
  them, and the function returns 10, because it steps over the further bits by adding
  their number to the bit position.
\<close>

theorem BytesCoveringH264PPS_counterexample:
  "golomb_cover [0] 1 0 3 = None \<and>
   BytesCoveringH264PPS [0] 1 = Inr 2 \<and>
   golomb_cover [0, 0, 3, 0, 1, 0, 0, 3, 0xFF, 0xFF, 0xFF, 0xFF] 12 0 3 = Some (Inr 11) \<and>
   BytesCoveringH264PPS [0, 0, 3, 0, 1, 0, 0, 3, 0xFF, 0xFF, 0xFF, 0xFF] 12 = Inr 10"
proof -
  have a: "golomb_cover [0] 1 0 3 = None" by code_simp
  have b: "BytesCoveringH264PPS [0] 1 = Inr 2"
    by (simp add: golomb_eval kEmulationPreventionByte_def Let_def)
  have c: "golomb_cover [0, 0, 3, 0, 1, 0, 0, 3, 0xFF, 0xFF, 0xFF, 0xFF] 12 0 3 = Some (Inr 11)"
    by code_simp
  have d: "BytesCoveringH264PPS [0, 0, 3, 0, 1, 0, 0, 3, 0xFF, 0xFF, 0xFF, 0xFF] 12 = Inr 10"
    by (simp add: golomb_eval kEmulationPreventionByte_def Let_def)
  from a b c d show ?thesis by (intro conjI)
qed

theorem BytesCoveringH264PPS_golomb_cover_witness:
  "(6::nat) * 8 < size_max \<and>
   golomb_cover [0, 0, 3, 0x40, 0xFF, 0xFF] 6 0 3 = Some (Inr 6) \<and>
   suffixes_contiguous [0, 0, 3, 0x40, 0xFF, 0xFF] 6 0 3 \<and>
   BytesCoveringH264PPS [0, 0, 3, 0x40, 0xFF, 0xFF] 6 = Inr 6 \<and>
   (8::nat) * 8 < size_max \<and>
   golomb_cover [0, 0, 3, 0, 0, 3, 0, 0] 8 0 3 = Some (Inl length_exception) \<and>
   suffixes_contiguous [0, 0, 3, 0, 0, 3, 0, 0] 8 0 3 \<and>
   BytesCoveringH264PPS [0, 0, 3, 0, 0, 3, 0, 0] 8 = Inl length_exception"
proof -
  have m: "(6::nat) * 8 < size_max" and n: "(8::nat) * 8 < size_max"
    by (simp_all add: size_max_def)
  have a: "golomb_cover [0, 0, 3, 0x40, 0xFF, 0xFF] 6 0 3 = Some (Inr 6)" by code_simp
  have b: "suffixes_contiguous [0, 0, 3, 0x40, 0xFF, 0xFF] 6 0 3" by code_simp
  have c: "golomb_cover [0, 0, 3, 0, 0, 3, 0, 0] 8 0 3 = Some (Inl length_exception)" by code_simp
  have d: "suffixes_contiguous [0, 0, 3, 0, 0, 3, 0, 0] 8 0 3" by code_simp
  from m n a b c d BytesCoveringH264PPS_golomb_cover[OF m a b]
    BytesCoveringH264PPS_golomb_cover[OF n c d]
  show ?thesis by (intro conjI)
qed

section \<open>Claims about the coverage of the frame\<close>

lemma laid_out_append:
  "laid_out frame c (xs @ ys) \<longleftrightarrow>
     laid_out frame c xs \<and> laid_out frame (c + sum_list (map call_size xs)) ys"
  by (induction xs arbitrary: c) (auto simp: add.assoc)

lemma emit_units_returns_calls:
  "emit_units u fs = (calls, returns True) \<Longrightarrow> calls = concat (map (\<lambda>f. fst (u f)) fs)"
proof (induction fs arbitrary: calls)
  case Nil
  then show ?case by simp
next
  case (Cons a fs)
  obtain cs e where ua: "u a = (cs, e)" by (cases "u a")
  obtain cs' r where rest: "emit_units u fs = (cs', r)" by (cases "emit_units u fs")
  from Cons.prems ua rest have c: "calls = cs @ cs'" and r: "r = returns True"
    by (auto split: option.splits)
  from Cons.IH[of cs'] rest r have "cs' = concat (map (\<lambda>f. fst (u f)) fs)" by simp
  with c ua show ?case by simp
qed

lemma emit_units_returns_no_error:
  "emit_units u fs = (calls, returns True) \<Longrightarrow> f \<in> set fs \<Longrightarrow> snd (u f) = None"
proof (induction fs arbitrary: calls)
  case Nil
  then show ?case by simp
next
  case (Cons a fs)
  obtain cs e where ua: "u a = (cs, e)" by (cases "u a")
  obtain cs' r where rest: "emit_units u fs = (cs', r)" by (cases "emit_units u fs")
  from Cons.prems(1) ua rest have e: "e = None" and r: "r = returns True"
    by (auto split: option.splits)
  from Cons.IH[of cs'] rest r have "f \<in> set fs \<Longrightarrow> snd (u f) = None" by simp
  with Cons.prems(2) e ua show ?case by auto
qed

text \<open>A marker with a 00 byte before it: the four bytes from that byte on.\<close>

lemma long_start_code_bytes:
  assumes "is_marker frame p" "1 \<le> p" "frame ! (p - 1) = 0" "p + 3 \<le> length frame"
  shows "take 4 (drop (p - 1) frame) = [0, 0, 0, 1]"
proof -
  have len: "length (take 4 (drop (p - 1) frame)) = 4" using assms(2,4) by simp
  have "take 4 (drop (p - 1) frame) ! i = [0, 0, 0, 1 :: byte] ! i" if "i < 4" for i
  proof -
    from that have "i = 0 \<or> i = 1 \<or> i = 2 \<or> i = 3" by arith
    moreover have "p - 1 + 1 = p" "p - 1 + 2 = p + 1" "p - 1 + 3 = p + 2" using assms(2) by simp_all
    ultimately show ?thesis
      using assms by (auto simp: is_marker_def)
  qed
  with len show ?thesis by (intro nth_equalityI) simp_all
qed

lemma long_start_codes_marker:
  assumes "long_start_codes frame" "is_marker frame p" "p + 2 < length frame"
  shows "1 \<le> p" "frame ! (p - 1) = 0" "p + 4 < length frame" "marker_len frame p = 4"
proof -
  from assms(3) have "p \<in> set [0..<length frame - 2]" by simp
  with assms(1,2) show "1 \<le> p" "frame ! (p - 1) = 0" "p + 4 < length frame"
    by (auto simp: long_start_codes_def list_all_iff)
  then show "marker_len frame p = 4" by (simp add: marker_len_def)
qed

lemma long_start_codes_first:
  assumes "long_start_codes frame"
  shows "unit_end frame 0 = 0"
proof -
  from assms have t: "take 4 frame = [0, 0, 0, 1]" by (simp add: long_start_codes_def)
  then have "length (take 4 frame) = 4" by simp
  then have len: "4 \<le> length frame" by simp
  have b: "frame ! 0 = 0" "frame ! 1 = 0" "frame ! 2 = 0" "frame ! 3 = 1"
    using nth_take[of 0 4 frame] nth_take[of 1 4 frame] nth_take[of 2 4 frame]
      nth_take[of 3 4 frame] t by simp_all
  then have m1: "is_marker frame 1" and m0: "\<not> is_marker frame 0"
    by (simp_all add: is_marker_def numeral_2_eq_2 numeral_3_eq_3)
  from long_start_codes_marker(3)[OF assms m1] len have "1 + 4 < length frame" by simp
  then have "List.find (is_marker frame) [0..<length frame - 3] = Some 1"
    using m0 m1 by (simp add: find_Some_upt less_Suc_eq)
  then show ?thesis using b by (simp add: unit_end_def marker_len_def)
qed

text \<open>
  A per-unit emission \<open>uc\<close> that passes the 4-byte start code and then the bytes of the
  unit in order tiles the frame from the first start code on.
\<close>

lemma walked_units_laid_out:
  assumes lsc: "long_start_codes frame"
    and unit: "\<And>f. f \<in> set (walked_units_from frame s) \<Longrightarrow>
             \<exists>rest. uc f = add_unencrypted_bytes (local_bytes [0, 0, 0, 1]) 4 # rest \<and>
                    laid_out frame f rest \<and>
                    f + sum_list (map call_size rest) = unit_end frame f"
  shows "laid_out frame (unit_end frame s) (concat (map uc (walked_units_from frame s))) \<and>
         unit_end frame s + sum_list (map call_size (concat (map uc (walked_units_from frame s))))
           = length frame"
  using unit
proof (induction "length frame - s" arbitrary: s rule: less_induct)
  case less
  let ?n = "length frame"
  show ?case
  proof (cases "List.find (is_marker frame) [s..<?n - 3]")
    case None
    then show ?thesis by (simp add: walked_units_from_None unit_end_def)
  next
    case (Some p)
    then have p: "s \<le> p" "p < ?n - 3" "is_marker frame p" by (auto simp: find_Some_upt)
    then have p2: "p + 2 < ?n" by simp
    note m = long_start_codes_marker[OF lsc p(3) p2]
    have ue: "unit_end frame s = p - 1" using Some m(4) by (simp add: unit_end_def)
    have walked: "walked_units_from frame s = (p + 3) # walked_units_from frame (p + 3)"
      using walked_units_from_Some[OF Some] m(3) by simp
    from less.prems[of "p + 3"] walked obtain rest where
      rest: "uc (p + 3) = add_unencrypted_bytes (local_bytes [0, 0, 0, 1]) 4 # rest"
        "laid_out frame (p + 3) rest"
        "p + 3 + sum_list (map call_size rest) = unit_end frame (p + 3)"
      by auto
    have lt: "?n - (p + 3) < ?n - s" using p by arith
    have IH: "laid_out frame (unit_end frame (p + 3)) (concat (map uc (walked_units_from frame (p + 3)))) \<and>
         unit_end frame (p + 3) +
           sum_list (map call_size (concat (map uc (walked_units_from frame (p + 3))))) = ?n"
      by (rule less.hyps[OF lt]) (use less.prems walked in auto)
    have sc: "take 4 [0, 0, 0, 1 :: byte] = take 4 (drop (p - 1) frame)"
      using long_start_code_bytes[OF p(3) m(1) m(2)] p(2) by simp
    have c1: "p - 1 + 4 = p + 3" using m(1) by simp
    have in_frame: "p + 3 \<le> ?n" using p(2) by simp
    let ?U = "concat (map uc (walked_units_from frame (p + 3)))"
    have a: "laid_out frame (p - 1) (uc (p + 3))"
    proof -
      have "laid_out frame (p - 1 + 4) rest" using rest(2) by (simp only: c1)
      moreover have "p - 1 + 4 \<le> ?n" using in_frame by (simp only: c1)
      ultimately show ?thesis
        unfolding rest(1) using sc by simp
    qed
    have b: "p - 1 + sum_list (map call_size (uc (p + 3))) = unit_end frame (p + 3)"
    proof -
      have "p - 1 + sum_list (map call_size (uc (p + 3))) =
            p - 1 + 4 + sum_list (map call_size rest)"
        unfolding rest(1) by simp
      also have "\<dots> = p + 3 + sum_list (map call_size rest)" by (simp only: c1)
      finally show ?thesis using rest(3) by simp
    qed
    have "laid_out frame (p - 1) (uc (p + 3) @ ?U)"
      unfolding laid_out_append b using a IH by simp
    moreover have "p - 1 + sum_list (map call_size (uc (p + 3) @ ?U)) = ?n"
    proof -
      have "p - 1 + sum_list (map call_size (uc (p + 3) @ ?U)) =
            (p - 1 + sum_list (map call_size (uc (p + 3)))) + sum_list (map call_size ?U)"
        by simp
      also have "\<dots> = unit_end frame (p + 3) + sum_list (map call_size ?U)"
        by (simp only: b)
      finally show ?thesis using IH by simp
    qed
    ultimately show ?thesis
      unfolding ue walked by simp
  qed
qed

lemma h265_unit_laid_out:
  assumes "f \<in> set (walked_units frame)" "h265_unit_fits frame f"
  shows "\<exists>rest. h265_unit_calls frame f = add_unencrypted_bytes (local_bytes [0, 0, 0, 1]) 4 # rest \<and>
                laid_out frame f rest \<and>
                f + sum_list (map call_size rest) = unit_end frame f"
proof -
  note b = walked_unit_bounds[OF assms(1)]
  have le: "unit_end frame f \<le> length frame" by (rule unit_end_le)
  show ?thesis
  proof (cases "h265_unit_type frame f < 32")
    case True
    with assms(2) have fit: "f + 2 \<le> unit_end frame f" by (simp add: h265_unit_fits_def)
    with True le show ?thesis by (simp add: h265_unit_calls_def; arith)
  next
    case False
    with b(1) le show ?thesis by (simp add: h265_unit_calls_def; arith)
  qed
qed

lemma h264_unit_laid_out:
  assumes "f \<in> set (walked_units frame)" "h264_unit_fits frame f"
    and "snd (h264_unit_spec frame f) = None"
  shows "\<exists>rest. fst (h264_unit_spec frame f) =
                  add_unencrypted_bytes (local_bytes [0, 0, 0, 1]) 4 # rest \<and>
                laid_out frame f rest \<and>
                f + sum_list (map call_size rest) = unit_end frame f"
proof -
  note b = walked_unit_bounds[OF assms(1)]
  have le: "unit_end frame f \<le> length frame" by (rule unit_end_le)
  show ?thesis
  proof (cases "h264_unit_type frame f = 1 \<or> h264_unit_type frame f = 5")
    case True
    show ?thesis
    proof (cases "BytesCoveringH264PPS (drop (f + 1) frame) (length frame - (f + 1))")
      case (Inl e)
      with True assms(3) show ?thesis by (simp add: h264_unit_spec_def)
    next
      case (Inr prefix)
      with True assms(2) have fit: "f + 1 + prefix \<le> unit_end frame f"
        by (simp add: h264_unit_fits_def)
      with True Inr le show ?thesis by (simp add: h264_unit_spec_def; arith)
    qed
  next
    case False
    with b(1) le show ?thesis by (simp add: h264_unit_spec_def; arith)
  qed
qed

lemma process_frame_h265_covers:
  assumes "long_start_codes frame"
    and "\<forall>f \<in> set (walked_units frame). h265_unit_fits frame f"
  shows "covers_frame frame (fst (process_frame_h265 frame))"
proof -
  from assms(1) have "take 4 frame = [0, 0, 0, 1]" by (simp add: long_start_codes_def)
  then have "length (take 4 frame) = 4" by simp
  then have "4 \<le> length frame" by simp
  moreover have "is_marker frame 1"
  proof -
    have "frame ! 1 = 0" "frame ! 2 = 0" "frame ! 3 = 1"
      using nth_take[of 1 4 frame] nth_take[of 2 4 frame] nth_take[of 3 4 frame]
        \<open>take 4 frame = [0, 0, 0, 1]\<close> by simp_all
    then show ?thesis by (simp add: is_marker_def numeral_2_eq_2 numeral_3_eq_3)
  qed
  ultimately have len: "5 \<le> length frame"
    using long_start_codes_marker(3)[OF assms(1), of 1] by simp
  have run: "process_frame_h265 frame =
           (concat (map (h265_unit_calls frame) (walked_units frame)), returns True)"
  proof -
    have eq: "h265_nal_unit frame f = (h265_unit_calls frame f, None)"
      if "f \<in> set (walked_units frame)" for f
      using that assms(2) walked_unit_bounds(1)[OF that] by (simp add: h265_nal_unit_spec)
    have "process_frame_h265 frame = emit_units (h265_nal_unit frame) (walked_units frame)"
      using len by (rule process_frame_h265_walk)
    also have "\<dots> = (concat (map (\<lambda>f. fst (h265_nal_unit frame f)) (walked_units frame)), returns True)"
      by (rule emit_units_no_error) (simp add: eq)
    also have "map (\<lambda>f. fst (h265_nal_unit frame f)) (walked_units frame) =
             map (h265_unit_calls frame) (walked_units frame)"
      by (rule map_cong) (simp_all add: eq)
    finally show ?thesis .
  qed
  have "laid_out frame (unit_end frame 0)
          (concat (map (h265_unit_calls frame) (walked_units_from frame 0))) \<and>
        unit_end frame 0 +
          sum_list (map call_size (concat (map (h265_unit_calls frame) (walked_units_from frame 0))))
          = length frame"
    by (rule walked_units_laid_out[OF assms(1)])
       (use assms(2) h265_unit_laid_out in \<open>simp add: walked_units_def\<close>)
  then show ?thesis
    unfolding run covers_frame_def long_start_codes_first[OF assms(1)]
    by (simp add: walked_units_def)
qed

lemma process_frame_h264_covers:
  assumes "long_start_codes frame"
    and "\<forall>f \<in> set (walked_units frame). h264_unit_fits frame f"
    and "process_frame_h264 frame = (calls, returns True)"
  shows "covers_frame frame calls"
proof -
  from assms(1) have t: "take 4 frame = [0, 0, 0, 1]" by (simp add: long_start_codes_def)
  then have "length (take 4 frame) = 4" by simp
  then have len: "4 \<le> length frame" by simp
  have eq: "h264_nal_unit frame f = h264_unit_spec frame f"
    if "f \<in> set (walked_units frame)" for f
    using that assms(2) walked_unit_bounds(1)[OF that] by (simp add: h264_nal_unit_spec)
  have "process_frame_h264 frame = emit_units (h264_nal_unit frame) (walked_units frame)"
    using len by (rule process_frame_h264_walk)
  also have "\<dots> = emit_units (h264_unit_spec frame) (walked_units frame)"
    by (rule emit_units_cong) (rule eq)
  finally have run: "emit_units (h264_unit_spec frame) (walked_units frame) = (calls, returns True)"
    using assms(3) by simp
  note calls = emit_units_returns_calls[OF run]
  have ok: "snd (h264_unit_spec frame f) = None" if "f \<in> set (walked_units frame)" for f
    using emit_units_returns_no_error[OF run that] .
  have "laid_out frame (unit_end frame 0)
          (concat (map (\<lambda>f. fst (h264_unit_spec frame f)) (walked_units_from frame 0))) \<and>
        unit_end frame 0 +
          sum_list (map call_size
            (concat (map (\<lambda>f. fst (h264_unit_spec frame f)) (walked_units_from frame 0))))
          = length frame"
    by (rule walked_units_laid_out[OF assms(1)])
       (use assms(2) ok h264_unit_laid_out in \<open>simp add: walked_units_def\<close>)
  then show ?thesis
    unfolding calls covers_frame_def long_start_codes_first[OF assms(1)]
    by (simp add: walked_units_def)
qed

lemma obu_laid_out:
  assumes p: "obu_parse rd frame i = Some ob" and i: "i < length frame"
    and k: "obu_kept_as_is wr frame ob"
  shows "laid_out frame i (obu_calls wr frame ob) \<and>
         i + sum_list (map call_size (obu_calls wr frame ob)) = obu_end ob"
proof -
  let ?n = "length frame"
  let ?he = "obu_header_end frame i"
  from obu_parse_Some[OF p] obtain v sz where
    he: "?he < ?n"
    and r: "(if bit (frame ! i) 1 then rd (drop ?he frame) else Some (?n - ?he, 0)) = Some (v, sz)"
    and fit: "?he + sz + v \<le> ?n"
    and ob: "ob = \<lparr>obu_index = i, obu_header = frame ! i,
                       obu_has_extension = bit (frame ! i) 2,
                       obu_has_size = bit (frame ! i) 1,
                       obu_type = (unat (frame ! i) div 8) mod 16,
                       obu_payload_index = ?he + sz,
                       obu_payload_size = v\<rparr>"
    by blast
  have hdr: "take (Suc 0) (drop i frame) = [frame ! i]"
    using i by (simp add: take_Suc_conv_app_nth hd_drop_conv_nth take_Suc)
  have nd: "\<not> obu_dropped ob" using k by (simp add: obu_kept_as_is_def)
  show ?thesis
  proof (cases "bit (frame ! i) 1")
    case False
    with r have v: "v = ?n - ?he" "sz = 0" by simp_all
    show ?thesis
    proof (cases "bit (frame ! i) 2")
      case True
      then have "?he = i + 2" by (simp add: obu_header_end_def)
      with False True he v hdr nd show ?thesis
        by (simp add: obu_calls_def ob obu_end_def)
    next
      case ne: False
      then have "?he = i + 1" by (simp add: obu_header_end_def)
      with False ne he v hdr nd show ?thesis
        by (simp add: obu_calls_def ob obu_end_def)
    qed
  next
    case True
    with k ob have last: "obu_end ob < ?n"
      and w: "wr v = take sz (drop ?he frame)"
      by (simp_all add: obu_kept_as_is_def)
    have lw: "length (wr v) = sz" using w fit by simp
    have tw: "take sz (wr v) = take sz (drop ?he frame)" using w by simp
    from last have ne: "obu_end ob \<noteq> ?n" by simp
    show ?thesis
    proof (cases "bit (frame ! i) 2")
      case ext: True
      then have h: "?he = i + 2" by (simp add: obu_header_end_def)
      have "obu_calls wr frame ob =
              [add_unencrypted_bytes (local_bytes [frame ! i]) 1,
               add_unencrypted_bytes (frame_bytes (i + 1)) 1,
               add_unencrypted_bytes (local_bytes (wr v)) sz,
               add_encrypted_bytes (frame_bytes (i + 2 + sz)) v]"
        using nd ne True ext lw h by (simp add: obu_calls_def ob)
      then show ?thesis
        using hdr tw fit h i by (simp add: obu_end_def ob)
    next
      case noext: False
      then have h: "?he = i + 1" by (simp add: obu_header_end_def)
      have "obu_calls wr frame ob =
              [add_unencrypted_bytes (local_bytes [frame ! i]) 1,
               add_unencrypted_bytes (local_bytes (wr v)) sz,
               add_encrypted_bytes (frame_bytes (i + 1 + sz)) v]"
        using nd ne True noext lw h by (simp add: obu_calls_def ob)
      then show ?thesis
        using hdr tw fit h i by (simp add: obu_end_def ob)
    qed
  qed
qed

lemma obu_parse_end_le:
  "obu_parse rd frame i = Some ob \<Longrightarrow> obu_end ob \<le> length frame"
  using obu_parse_Some(2)[of rd frame i ob] by (auto simp: obu_end_def)

lemma av1_obus_laid_out:
  assumes "snd (av1_obus rd frame i)" "i \<le> length frame"
    and "\<forall>ob \<in> set (fst (av1_obus rd frame i)). obu_kept_as_is wr frame ob"
  shows "laid_out frame i (concat (map (obu_calls wr frame) (fst (av1_obus rd frame i)))) \<and>
         i + sum_list (map call_size (concat (map (obu_calls wr frame) (fst (av1_obus rd frame i)))))
           = length frame"
  using assms
proof (induction rd frame i rule: av1_obus.induct)
  case (1 rd frame i)
  show ?case
  proof (cases "i < length frame")
    case False
    with "1.prems"(2) show ?thesis by (simp add: av1_obus.simps)
  next
    case lt: True
    show ?thesis
    proof (cases "obu_parse rd frame i")
      case None
      with lt "1.prems"(1) show ?thesis by (simp add: av1_obus.simps)
    next
      case (Some ob)
      have unf: "av1_obus rd frame i =
                   (ob # fst (av1_obus rd frame (obu_end ob)), snd (av1_obus rd frame (obu_end ob)))"
        using lt Some by (simp add: av1_obus.simps)
      let ?U = "concat (map (obu_calls wr frame) (fst (av1_obus rd frame (obu_end ob))))"
      have kept: "obu_kept_as_is wr frame ob" using "1.prems"(3) unf by simp
      note one = obu_laid_out[OF Some lt kept]
      have IH: "laid_out frame (obu_end ob) ?U \<and>
                obu_end ob + sum_list (map call_size ?U) = length frame"
        by (rule "1.IH"(1)[OF lt Some])
           (use "1.prems" unf obu_parse_end_le[OF Some] in auto)
      have "laid_out frame i (obu_calls wr frame ob @ ?U)"
        unfolding laid_out_append using one IH by simp
      moreover have "i + sum_list (map call_size (obu_calls wr frame ob @ ?U)) = length frame"
      proof -
        have "i + sum_list (map call_size (obu_calls wr frame ob @ ?U)) =
              (i + sum_list (map call_size (obu_calls wr frame ob))) + sum_list (map call_size ?U)"
          by simp
        also have "\<dots> = obu_end ob + sum_list (map call_size ?U)" using one by simp
        finally show ?thesis using IH by simp
      qed
      ultimately show ?thesis by (simp add: unf)
    qed
  qed
qed

lemma vp8_key_bit: "((b::byte) AND 1 = 0) \<longleftrightarrow> even (unat b)"
  by (simp add: and_one_eq word_eq_iff_unsigned[where ?'a = nat] unat_mod even_iff_mod_2_eq_zero)

text \<open>
  Claim C1, as stated, fails for the H.264 frame 00 00 01 67 00, which is processed without
  error: the 3-byte marker is emitted as the 4-byte start code, so the two ranges passed,
  \<open>(0, 4)\<close> and \<open>(4, 2)\<close>, cover 6 bytes for a frame of 5.
\<close>

theorem emitted_ranges_cover_frame_counterexample:
  "process_frame_h264 [0, 0, 1, 0x67, 0] =
     ([add_unencrypted_bytes (local_bytes [0, 0, 0, 1]) 4,
       add_unencrypted_bytes (frame_bytes 3) 2], returns True) \<and>
   emitted_ranges 0 [add_unencrypted_bytes (local_bytes [0, 0, 0, 1]) 4,
       add_unencrypted_bytes (frame_bytes 3) 2] = [(0, 4), (4, 2)] \<and>
   length [0, 0, 1, 0x67, 0 :: byte] = 5 \<and>
   \<not> covers_frame [0, 0, 1, 0x67, 0]
       [add_unencrypted_bytes (local_bytes [0, 0, 0, 1]) 4,
        add_unencrypted_bytes (frame_bytes 3) 2]"
  by (simp add: h264_eval covers_frame_def)

text \<open>
  Claim C1, amended: the ranges passed to the accumulator, taken in emission order, are
  contiguous, non-overlapping and together cover exactly \<open>[0, frame length)\<close> for every
  opus and VP9 frame; for every VP8 frame that is not empty and at least as long as its
  unencrypted header (10 bytes for a key frame, 1 for a delta frame); for every H.264 and
  H.265 frame processed without error that begins with the 4-byte start code, in which
  every marker has a 00 byte before it and at least two bytes after it, and in which the
  unencrypted header (and Golomb prefix) of every unit ends within the unit; and for every
  well-formed AV1 frame in which no OBU is of a dropped type and every OBU with a size
  field is not the last one and carries the size field that the LEB128 writer produces.
\<close>

theorem emitted_ranges_cover_frame:
  "covers_frame frame (fst (process_frame_opus frame)) \<and>
   covers_frame frame (fst (process_frame_vp9 frame)) \<and>
   (frame \<noteq> [] \<and> vp8_header_bytes frame \<le> length frame \<longrightarrow>
      covers_frame frame (fst (process_frame_vp8 frame))) \<and>
   (long_start_codes frame \<and> (\<forall>f \<in> set (walked_units frame). h264_unit_fits frame f) \<and>
    process_frame_h264 frame = (calls, returns True) \<longrightarrow> covers_frame frame calls) \<and>
   (long_start_codes frame \<and> (\<forall>f \<in> set (walked_units frame). h265_unit_fits frame f) \<and>
    process_frame_h265 frame = (calls, returns True) \<longrightarrow> covers_frame frame calls) \<and>
   (length frame < size_max \<and> snd (av1_obus rd frame 0) \<and>
    (\<forall>ob \<in> set (fst (av1_obus rd frame 0)). obu_kept_as_is wr frame ob) \<and>
    process_frame_av1 rd wr frame = Some (calls, returns True) \<longrightarrow> covers_frame frame calls)"
proof (intro conjI impI)
  show "covers_frame frame (fst (process_frame_opus frame))"
    by (simp add: covers_frame_def process_frame_opus_def)
  show "covers_frame frame (fst (process_frame_vp9 frame))"
    by (simp add: covers_frame_def process_frame_vp9_def)
next
  assume a: "frame \<noteq> [] \<and> vp8_header_bytes frame \<le> length frame"
  then have "1 \<le> length frame" by (cases frame) simp_all
  with a show "covers_frame frame (fst (process_frame_vp8 frame))"
    by (auto simp: covers_frame_def process_frame_vp8_def vp8_header_bytes_def vp8_key_bit
        kVP8KeyFrameUnencryptedBytes_def kVP8DeltaFrameUnencryptedBytes_def size_sub_def Let_def)
next
  assume "long_start_codes frame \<and> (\<forall>f \<in> set (walked_units frame). h264_unit_fits frame f) \<and>
    process_frame_h264 frame = (calls, returns True)"
  then show "covers_frame frame calls" using process_frame_h264_covers by blast
next
  assume a: "long_start_codes frame \<and> (\<forall>f \<in> set (walked_units frame). h265_unit_fits frame f) \<and>
    process_frame_h265 frame = (calls, returns True)"
  then have "covers_frame frame (fst (process_frame_h265 frame))"
    using process_frame_h265_covers by blast
  with a show "covers_frame frame calls" by simp
next
  assume a: "length frame < size_max \<and> snd (av1_obus rd frame 0) \<and>
    (\<forall>ob \<in> set (fst (av1_obus rd frame 0)). obu_kept_as_is wr frame ob) \<and>
    process_frame_av1 rd wr frame = Some (calls, returns True)"
  then have "process_frame_av1 rd wr frame =
           Some (concat (map (obu_calls wr frame) (fst (av1_obus rd frame 0))), returns True)"
    using process_frame_av1_loop_obus[of frame rd 0 wr "[]"]
    by (simp add: process_frame_av1_def)
  with a have c: "calls = concat (map (obu_calls wr frame) (fst (av1_obus rd frame 0)))" by simp
  from a av1_obus_laid_out[of rd frame 0 wr] show "covers_frame frame calls"
    unfolding c covers_frame_def by simp
qed

theorem emitted_ranges_cover_frame_witness:
  "[0, 1, 2, 3, 4, 5, 6, 7, 8, 9, 10, 11 :: byte] \<noteq> [] \<and>
   vp8_header_bytes [0, 1, 2, 3, 4, 5, 6, 7, 8, 9, 10, 11] = 10 \<and>
   covers_frame [0, 1, 2, 3, 4, 5, 6, 7, 8, 9, 10, 11]
     (fst (process_frame_vp8 [0, 1, 2, 3, 4, 5, 6, 7, 8, 9, 10, 11])) \<and>
   long_start_codes [0, 0, 0, 1, 0x67, 1, 2, 0, 0, 0, 1, 0x65, 0x88, 1, 2, 3] \<and>
   walked_units [0, 0, 0, 1, 0x67, 1, 2, 0, 0, 0, 1, 0x65, 0x88, 1, 2, 3] = [4, 11] \<and>
   h264_unit_fits [0, 0, 0, 1, 0x67, 1, 2, 0, 0, 0, 1, 0x65, 0x88, 1, 2, 3] 4 \<and>
   h264_unit_fits [0, 0, 0, 1, 0x67, 1, 2, 0, 0, 0, 1, 0x65, 0x88, 1, 2, 3] 11 \<and>
   process_frame_h264 [0, 0, 0, 1, 0x67, 1, 2, 0, 0, 0, 1, 0x65, 0x88, 1, 2, 3] =
     ([add_unencrypted_bytes (local_bytes [0, 0, 0, 1]) 4,
       add_unencrypted_bytes (frame_bytes 4) 3,
       add_unencrypted_bytes (local_bytes [0, 0, 0, 1]) 4,
       add_unencrypted_bytes (frame_bytes 11) 4,
       add_encrypted_bytes (frame_bytes 15) 1], returns True) \<and>
   covers_frame [0, 0, 0, 1, 0x67, 1, 2, 0, 0, 0, 1, 0x65, 0x88, 1, 2, 3]
     [add_unencrypted_bytes (local_bytes [0, 0, 0, 1]) 4,
       add_unencrypted_bytes (frame_bytes 4) 3,
       add_unencrypted_bytes (local_bytes [0, 0, 0, 1]) 4,
       add_unencrypted_bytes (frame_bytes 11) 4,
       add_encrypted_bytes (frame_bytes 15) 1] \<and>
   long_start_codes [0, 0, 0, 1, 2, 1, 7, 7, 0, 0, 0, 1, 0x40, 1, 5] \<and>
   walked_units [0, 0, 0, 1, 2, 1, 7, 7, 0, 0, 0, 1, 0x40, 1, 5] = [4, 12] \<and>
   h265_unit_fits [0, 0, 0, 1, 2, 1, 7, 7, 0, 0, 0, 1, 0x40, 1, 5] 4 \<and>
   h265_unit_fits [0, 0, 0, 1, 2, 1, 7, 7, 0, 0, 0, 1, 0x40, 1, 5] 12 \<and>
   process_frame_h265 [0, 0, 0, 1, 2, 1, 7, 7, 0, 0, 0, 1, 0x40, 1, 5] =
     ([add_unencrypted_bytes (local_bytes [0, 0, 0, 1]) 4,
       add_unencrypted_bytes (frame_bytes 4) 2,
       add_encrypted_bytes (frame_bytes 6) 2,
       add_unencrypted_bytes (local_bytes [0, 0, 0, 1]) 4,
       add_unencrypted_bytes (frame_bytes 12) 3], returns True) \<and>
   covers_frame [0, 0, 0, 1, 2, 1, 7, 7, 0, 0, 0, 1, 0x40, 1, 5]
     [add_unencrypted_bytes (local_bytes [0, 0, 0, 1]) 4,
       add_unencrypted_bytes (frame_bytes 4) 2,
       add_encrypted_bytes (frame_bytes 6) 2,
       add_unencrypted_bytes (local_bytes [0, 0, 0, 1]) 4,
       add_unencrypted_bytes (frame_bytes 12) 3] \<and>
   length [0x0A, 2, 7, 7, 0x30, 9 :: byte] < size_max \<and>
   snd (av1_obus sample_read_leb128 [0x0A, 2, 7, 7, 0x30, 9] 0) \<and>
   list_all (obu_kept_as_is sample_write_leb128 [0x0A, 2, 7, 7, 0x30, 9])
     (fst (av1_obus sample_read_leb128 [0x0A, 2, 7, 7, 0x30, 9] 0)) \<and>
   process_frame_av1 sample_read_leb128 sample_write_leb128 [0x0A, 2, 7, 7, 0x30, 9] =
     Some ([add_unencrypted_bytes (local_bytes [0x0A]) 1,
            add_unencrypted_bytes (local_bytes [2]) 1,
            add_encrypted_bytes (frame_bytes 2) 2,
            add_unencrypted_bytes (local_bytes [0x30]) 1,
            add_encrypted_bytes (frame_bytes 5) 1], returns True) \<and>
   covers_frame [0x0A, 2, 7, 7, 0x30, 9]
     [add_unencrypted_bytes (local_bytes [0x0A]) 1,
      add_unencrypted_bytes (local_bytes [2]) 1,
      add_encrypted_bytes (frame_bytes 2) 2,
      add_unencrypted_bytes (local_bytes [0x30]) 1,
      add_encrypted_bytes (frame_bytes 5) 1]"
proof -
  let ?F8 = "[0, 1, 2, 3, 4, 5, 6, 7, 8, 9, 10, 11] :: byte list"
  let ?F4 = "[0, 0, 0, 1, 0x67, 1, 2, 0, 0, 0, 1, 0x65, 0x88, 1, 2, 3] :: byte list"
  let ?C4 = "[add_unencrypted_bytes (local_bytes [0, 0, 0, 1]) 4,
       add_unencrypted_bytes (frame_bytes 4) 3,
       add_unencrypted_bytes (local_bytes [0, 0, 0, 1]) 4,
       add_unencrypted_bytes (frame_bytes 11) 4,
       add_encrypted_bytes (frame_bytes 15) 1]"
  let ?F5 = "[0, 0, 0, 1, 2, 1, 7, 7, 0, 0, 0, 1, 0x40, 1, 5] :: byte list"
  let ?C5 = "[add_unencrypted_bytes (local_bytes [0, 0, 0, 1]) 4,
       add_unencrypted_bytes (frame_bytes 4) 2,
       add_encrypted_bytes (frame_bytes 6) 2,
       add_unencrypted_bytes (local_bytes [0, 0, 0, 1]) 4,
       add_unencrypted_bytes (frame_bytes 12) 3]"
  let ?F1 = "[0x0A, 2, 7, 7, 0x30, 9] :: byte list"
  let ?C1 = "[add_unencrypted_bytes (local_bytes [0x0A]) 1,
      add_unencrypted_bytes (local_bytes [2]) 1,
      add_encrypted_bytes (frame_bytes 2) 2,
      add_unencrypted_bytes (local_bytes [0x30]) 1,
      add_encrypted_bytes (frame_bytes 5) 1]"
  have v1: "?F8 \<noteq> []" by simp
  have v2: "vp8_header_bytes ?F8 = 10" by (simp add: vp8_header_bytes_def)
  then have v3: "vp8_header_bytes ?F8 \<le> length ?F8" by simp
  from emitted_ranges_cover_frame[of ?F8] v1 v3
  have v: "covers_frame ?F8 (fst (process_frame_vp8 ?F8))" by blast
  have a1: "long_start_codes ?F4" by code_simp
  have a2: "walked_units ?F4 = [4, 11]" by code_simp
  have t4: "h264_unit_type ?F4 4 = 7" and t11: "h264_unit_type ?F4 11 = 5" by code_simp+
  have e11: "unit_end ?F4 11 = 16" by code_simp
  have p11: "BytesCoveringH264PPS (drop (11 + 1) ?F4) (length ?F4 - (11 + 1)) = Inr 3"
  proof -
    have "drop (11 + 1) ?F4 = [0x88, 1, 2, 3]" by simp
    moreover have "length ?F4 - (11 + 1) = 4" by simp
    moreover have "BytesCoveringH264PPS [0x88, 1, 2, 3] 4 = Inr 3" by (simp add: golomb_eval)
    ultimately show ?thesis by (simp only:)
  qed
  have a3: "h264_unit_fits ?F4 4" by (simp add: h264_unit_fits_def t4 split: sum.split)
  have a4: "h264_unit_fits ?F4 11" unfolding h264_unit_fits_def p11 t11 e11 by simp
  have a5: "\<forall>f \<in> set (walked_units ?F4). h264_unit_fits ?F4 f" using a3 a4 by (simp add: a2)
  have a6: "process_frame_h264 ?F4 = (?C4, returns True)" by (simp add: h264_eval)
  from emitted_ranges_cover_frame[of ?F4 ?C4] a1 a5 a6
  have a: "covers_frame ?F4 ?C4" by blast
  have b1: "long_start_codes ?F5" by code_simp
  have b2: "walked_units ?F5 = [4, 12]" by code_simp
  have b3: "h265_unit_fits ?F5 4" and b4: "h265_unit_fits ?F5 12" by code_simp+
  have b5: "\<forall>f \<in> set (walked_units ?F5). h265_unit_fits ?F5 f" using b3 b4 by (simp add: b2)
  have b6: "process_frame_h265 ?F5 = (?C5, returns True)" by (simp add: h265_eval)
  from emitted_ranges_cover_frame[of ?F5 ?C5] b1 b5 b6
  have b: "covers_frame ?F5 ?C5" by blast
  have c1: "length ?F1 < size_max" by (simp add: size_max_def)
  have c2: "snd (av1_obus sample_read_leb128 ?F1 0)" by code_simp
  have c3: "list_all (obu_kept_as_is sample_write_leb128 ?F1)
     (fst (av1_obus sample_read_leb128 ?F1 0))" by code_simp
  then have c4: "\<forall>ob \<in> set (fst (av1_obus sample_read_leb128 ?F1 0)).
      obu_kept_as_is sample_write_leb128 ?F1 ob" by (simp add: list_all_iff)
  have c5: "process_frame_av1 sample_read_leb128 sample_write_leb128 ?F1 = Some (?C1, returns True)"
    by (simp add: process_frame_av1_def process_frame_av1_loop.simps
        process_frame_av1_obu_header obu_header_end_def size_add_def size_max_def
        sample_write_leb128.simps)
  from emitted_ranges_cover_frame[of ?F1 ?C1 sample_read_leb128 sample_write_leb128] c1 c2 c4 c5
  have c: "covers_frame ?F1 ?C1" by blast
  from v1 v2 v a1 a2 a3 a4 a6 a b1 b2 b3 b4 b6 b c1 c2 c3 c5 c show ?thesis by (intro conjI)
qed

section \<open>Behaviour outside the amended claims\<close>

text \<open>
  The inputs below are outside the hypotheses of the theorems above. On each of them a
  \<open>size_t\<close> computation of the source leaves its range and a length near \<open>2 ^ 64\<close> is
  passed to the accumulator, or a size that large is accepted, or the bit count of a
  remaining length of \<open>2 ^ 61\<close> bytes wraps to 0 and no bit of the payload is read.
\<close>

lemma process_frame_h264_prefix_past_unit:
  "BytesCoveringH264PPS [0] 1 = Inr 2 \<and>
   process_frame_h264 [0, 0, 1, 0x65, 0] =
     ([add_unencrypted_bytes (local_bytes [0, 0, 0, 1]) 4,
       add_unencrypted_bytes (frame_bytes 3) 3,
       add_encrypted_bytes (frame_bytes 6) 18446744073709551615], returns True)"
  by (simp add: h264_eval)

lemma BytesCoveringH264PPS_bit_count_wrap:
  "size_mul 2305843009213693952 8 = 0 \<and>
   BytesCoveringH264PPS [0x40, 0xFF] 2305843009213693952 = Inr 1"
  by (simp add: golomb_eval)

lemma process_frame_h265_header_past_unit:
  "process_frame_h265 [0, 0, 1, 2, 0, 0, 1, 0x40, 1] =
     ([add_unencrypted_bytes (local_bytes [0, 0, 0, 1]) 4,
       add_unencrypted_bytes (frame_bytes 3) 2,
       add_encrypted_bytes (frame_bytes 5) 18446744073709551615,
       add_unencrypted_bytes (local_bytes [0, 0, 0, 1]) 4,
       add_unencrypted_bytes (frame_bytes 7) 2], returns True)"
  by (simp add: h265_eval)

lemma process_frame_vp8_short_key_frame:
  "process_frame_vp8 [0, 1, 2] =
     ([add_unencrypted_bytes (frame_bytes 0) 10,
       add_encrypted_bytes (frame_bytes 10) 18446744073709551609], returns True) \<and>
   process_frame_vp8 [] = ([], reads_out_of_bounds)"
  by (simp add: process_frame_vp8_def kVP8KeyFrameUnencryptedBytes_def
      kVP8DeltaFrameUnencryptedBytes_def size_sub_def size_max_def)

lemma process_frame_av1_size_wrap:
  "sample_read_leb128 [0xFF, 0xFF, 0xFF, 0xFF, 0xFF, 0xFF, 0xFF, 0xFF, 0xFF, 0x01, 9] =
     Some (18446744073709551615, 10) \<and>
   (\<exists>calls. process_frame_av1 sample_read_leb128 sample_write_leb128
      [0x0A, 0xFF, 0xFF, 0xFF, 0xFF, 0xFF, 0xFF, 0xFF, 0xFF, 0xFF, 0x01, 9] =
        Some (calls, returns True))"
  by (simp add: process_frame_av1_def process_frame_av1_loop.simps
      process_frame_av1_obu_header obu_header_end_def size_add_def size_max_def)

end
